theory Spec2Isabelle
  imports Complex_Main "HOL-Library.Multiset" "HOL-Library.Log_Nat"
begin

section \<open>Data model (types.ts)\<close>

text \<open>
  The numeric fields of the TypeScript interfaces are modelled as integers: they are
  counts of requests, indices, permits and whole milliseconds, and the properties below
  speak of them as such. An optional field is an \<open>option\<close>.
  The fields \<open>method\<close>, \<open>headers\<close> and \<open>body\<close> of the configuration are only handed to the
  transport and are left out. A missing \<open>url\<close> is the empty string, which JavaScript
  treats as falsy as well.
\<close>

datatype AttackPattern = Burst | Sustained | RampUp | Wave | Spike

record RampUpConfig =
  startConcurrency :: int
  endConcurrency :: int
  rampUpTime :: int
  step :: "int option"

record StressTestConfig =
  url :: string
  concurrency :: int
  totalRequests :: int
  duration :: "int option"
  delay :: "int option"
  timeout :: "int option"
  pattern :: "AttackPattern option"
  rampUp :: "RampUpConfig option"

record RequestResult =
  index :: int
  statusCode :: "int option"
  responseTime :: int
  error :: "string option"
  responseSize :: "int option"
  timestamp :: int

record TestStats =
  totalRequests_stat :: nat
  successfulRequests :: nat
  failedRequests :: nat
  successRate :: rat
  avgResponseTime :: rat
  minResponseTime :: int
  maxResponseTime :: int
  p50ResponseTime :: "int option"
  p95ResponseTime :: "int option"
  p99ResponseTime :: "int option"
  requestsPerSecond :: rat
  totalDataTransferred :: int
  errorDistribution :: "string \<rightharpoonup> nat"
  statusCodeDistribution :: "int \<rightharpoonup> nat"

datatype error = Error string

subsection \<open>JavaScript truthiness and array reads\<close>

fun truthy_num :: "int option \<Rightarrow> bool" where
  "truthy_num None = False"
| "truthy_num (Some n) = (n \<noteq> 0)"

fun truthy_str :: "string option \<Rightarrow> bool" where
  "truthy_str None = False"
| "truthy_str (Some s) = (s \<noteq> [])"

text \<open>\<open>x || d\<close> on an optional number.\<close>

fun num_or :: "int option \<Rightarrow> int \<Rightarrow> int" where
  "num_or None d = d"
| "num_or (Some n) d = (if n \<noteq> 0 then n else d)"

text \<open>\<open>xs[i]\<close>: a read outside the array is \<open>undefined\<close>, here \<open>None\<close>.\<close>

definition js_nth :: "'a list \<Rightarrow> int \<Rightarrow> 'a option" where
  "js_nth xs i = (if 0 \<le> i \<and> i < int (length xs) then Some (xs ! nat i) else None)"

section \<open>Request executor (http-client.ts)\<close>

text \<open>
  What the transport hands back for one request: a response (with
  \<open>validateStatus: () => true\<close> every status code resolves) or a rejection with an error
  object. \<open>byteLength\<close> is the UTF-8 length of the serialised headers and body, \<open>None\<close>
  when serialising throws; the two \<open>responseTime\<close> fields are what the interceptors
  attached.
\<close>

record AxiosResponse =
  status :: int
  resp_responseTime :: "int option"
  byteLength :: "int option"

record AxiosError =
  code :: "string option"
  message :: "string option"
  response :: "(int \<times> string) option"
  err_responseTime :: "int option"

datatype outcome = Resolved AxiosResponse | Rejected AxiosError

definition codeMessages :: "string \<rightharpoonup> string" where
  "codeMessages = map_of
     [(''ECONNREFUSED'', ''Connection refused''),
      (''ENOTFOUND'', ''Host not found''),
      (''ETIMEDOUT'', ''Request timeout''),
      (''ECONNRESET'', ''Connection reset''),
      (''ECONNABORTED'', ''Connection aborted'')]"

text \<open>Decimal rendering of a number inside a template string.\<close>

fun digits :: "nat \<Rightarrow> string" where
  "digits n = (if n < 10 then [char_of (48 + n)] else digits (n div 10) @ [char_of (48 + n mod 10)])"

definition show_int :: "int \<Rightarrow> string" where
  "show_int i = (if i < 0 then CHR ''-'' # digits (nat (- i)) else digits (nat i))"

text \<open>A value inside a template string: \<open>undefined\<close> prints as that word.\<close>

fun show_str :: "string option \<Rightarrow> string" where
  "show_str None = ''undefined''"
| "show_str (Some s) = s"

definition formatError :: "AxiosError \<Rightarrow> string" where
  "formatError e =
     (if truthy_str (code e) then
        (let c = the (code e);
             msg = (if truthy_str (codeMessages c) then codeMessages c else message e)
         in c @ '': '' @ show_str msg)
      else case response e of
        Some (st, statusText) \<Rightarrow> ''HTTP '' @ show_int st @ '': '' @ statusText
      | None \<Rightarrow> (if truthy_str (message e) then the (message e) else ''Unknown network error''))"

definition calculateResponseSize :: "AxiosResponse \<Rightarrow> int" where
  "calculateResponseSize r = (case byteLength r of Some n \<Rightarrow> n | None \<Rightarrow> 0)"

text \<open>
  \<open>makeRequest\<close>: \<open>ts\<close> is the value of \<open>Date.now()\<close> read on entry, \<open>out\<close> what the
  transport answered. The \<open>try\<close> branch builds a result without an \<open>error\<close> field, the
  \<open>catch\<close> branch one without \<open>statusCode\<close> and \<open>responseSize\<close>.
\<close>

fun makeRequest :: "int \<Rightarrow> int \<Rightarrow> outcome \<Rightarrow> RequestResult" where
  "makeRequest i ts (Resolved r) =
     \<lparr>index = i, statusCode = Some (status r), responseTime = num_or (resp_responseTime r) 0,
      error = None, responseSize = Some (calculateResponseSize r), timestamp = ts\<rparr>"
| "makeRequest i ts (Rejected e) =
     \<lparr>index = i, statusCode = None, responseTime = num_or (err_responseTime e) 0,
      error = Some (formatError e), responseSize = None, timestamp = ts\<rparr>"

section \<open>Configuration checks (stress-tester.ts)\<close>

definition validateConfig :: "StressTestConfig \<Rightarrow> error + unit" where
  "validateConfig config =
     (if url config = [] then Inl (Error ''URL is required'')
      else if concurrency config \<le> 0 then Inl (Error ''Concurrency must be greater than 0'')
      else if totalRequests config \<le> 0 then Inl (Error ''Total requests must be greater than 0'')
      else if truthy_num (timeout config) \<and> the (timeout config) \<le> 0
           then Inl (Error ''Timeout must be greater than 0'')
      else Inr ())"

definition validateRampUpConfig :: "RampUpConfig \<Rightarrow> error + unit" where
  "validateRampUpConfig r =
     (if startConcurrency r \<le> 0 \<or> endConcurrency r \<le> 0
        then Inl (Error ''Ramp-up concurrency values must be greater than 0'')
      else if startConcurrency r \<ge> endConcurrency r
        then Inl (Error ''End concurrency must be greater than start concurrency'')
      else if rampUpTime r \<le> 0 then Inl (Error ''Ramp-up time must be greater than 0'')
      else Inr ())"

section \<open>Statistics aggregator (stress-tester.ts)\<close>

definition is_successful :: "RequestResult \<Rightarrow> bool" where
  "is_successful r = (truthy_num (statusCode r) \<and> the (statusCode r) < 400)"

definition is_failed :: "RequestResult \<Rightarrow> bool" where
  "is_failed r =
     (if \<not> truthy_num (statusCode r) then True
      else if the (statusCode r) \<ge> 400 then True
      else truthy_str (error r))"

definition responseTimes :: "RequestResult list \<Rightarrow> int list" where
  "responseTimes rs = sort (map responseTime (filter (\<lambda>r. responseTime r > 0) rs))"

subsection \<open>Double-precision arithmetic\<close>

text \<open>
  A JavaScript number is an IEEE 754 double. \<open>to_double x\<close> is the double nearest to the
  rational \<open>x\<close>: with \<open>2^e \<le> |x| < 2^(e+1)\<close> the quotient \<open>x / 2^(e-52)\<close> is rounded to
  an integer of 53 bits, ties going to the even one. Overflow and subnormal numbers are
  not modelled; the quantities here stay far from both.
\<close>

definition floor_log2 :: "rat \<Rightarrow> int" where
  "floor_log2 x =
     (let d = bitlen (fst (quotient_of x)) - bitlen (snd (quotient_of x))
      in if 2 powi d \<le> x then d else d - 1)"

definition round_even :: "rat \<Rightarrow> int" where
  "round_even r =
     (let f = \<lfloor>r\<rfloor>; d = r - of_int f
      in if d < 1 / 2 then f else if 1 / 2 < d then f + 1 else if even f then f else f + 1)"

definition to_double :: "rat \<Rightarrow> rat" where
  "to_double x =
     (if x = 0 then 0
      else let e = floor_log2 \<bar>x\<bar> - 52
           in of_int (round_even (x * 2 powi (- e))) * 2 powi e)"

text \<open>
  \<open>calculatePercentile\<close>: the quotient \<open>percentile / 100\<close> and its product with the length
  are rounded as the doubles of the source are; \<open>Math.ceil\<close>, the subtraction of 1 and
  the clamping are exact on them. The percentile handed over is the value of a double
  itself (50, 95 and 99 in \<open>calculateStats\<close>, the only caller of this private method).
\<close>

definition calculatePercentile :: "int list \<Rightarrow> rat \<Rightarrow> int option" where
  "calculatePercentile sortedArray percentile =
     (if length sortedArray = 0 then Some 0
      else let idx = \<lceil>to_double (to_double (percentile / 100) * of_nat (length sortedArray))\<rceil> - 1
           in js_nth sortedArray (max 0 (min idx (int (length sortedArray) - 1))))"

definition calculateAverage :: "int list \<Rightarrow> rat" where
  "calculateAverage numbers =
     (if length numbers > 0 then of_int (foldl (+) 0 numbers) / of_nat (length numbers) else 0)"

definition tally :: "('k \<rightharpoonup> nat) \<Rightarrow> 'k \<Rightarrow> ('k \<rightharpoonup> nat)" where
  "tally distribution k = distribution(k \<mapsto> (case distribution k of None \<Rightarrow> 0 | Some c \<Rightarrow> c) + 1)"

definition calculateErrorDistribution :: "RequestResult list \<Rightarrow> (string \<rightharpoonup> nat)" where
  "calculateErrorDistribution failed =
     foldl (\<lambda>d r. tally d (if truthy_str (error r) then the (error r) else ''Unknown error''))
       Map.empty failed"

definition calculateStatusCodeDistribution :: "RequestResult list \<Rightarrow> (int \<rightharpoonup> nat)" where
  "calculateStatusCodeDistribution rs =
     foldl (\<lambda>d r. if truthy_num (statusCode r) then tally d (the (statusCode r)) else d)
       Map.empty rs"

text \<open>
  \<open>calculateStats\<close> reads the accumulated results and the two clock readings of the run.
  \<open>xs[0] || 0\<close> and \<open>xs[xs.length - 1] || 0\<close> are written with \<open>js_nth\<close> and \<open>num_or\<close>.
  The rates and the average are exact rationals here, where the source has their doubles.
\<close>

definition calculateStats :: "RequestResult list \<Rightarrow> int \<Rightarrow> int \<Rightarrow> TestStats" where
  "calculateStats rs startTime endTime =
     (let successful = filter is_successful rs;
          failed = filter is_failed rs;
          times = responseTimes rs;
          dur = endTime - startTime
      in \<lparr>totalRequests_stat = length rs,
          successfulRequests = length successful,
          failedRequests = length failed,
          successRate = (if length rs > 0
                         then (of_nat (length successful) / of_nat (length rs)) * 100 else 0),
          avgResponseTime = calculateAverage times,
          minResponseTime = num_or (js_nth times 0) 0,
          maxResponseTime = num_or (js_nth times (int (length times) - 1)) 0,
          p50ResponseTime = calculatePercentile times 50,
          p95ResponseTime = calculatePercentile times 95,
          p99ResponseTime = calculatePercentile times 99,
          requestsPerSecond = (if dur > 0 then (of_nat (length rs) / of_int dur) * 1000 else 0),
          totalDataTransferred = foldl (\<lambda>s r. s + num_or (responseSize r) 0) 0 rs,
          errorDistribution = calculateErrorDistribution failed,
          statusCodeDistribution = calculateStatusCodeDistribution rs\<rparr>)"

section \<open>Concurrency limiter (http-client.ts)\<close>

text \<open>
  The semaphore: a permit counter and the queue of suspended \<open>resolve\<close> callbacks. A
  callback is named by its caller, and a caller by the index of the request it is about
  to make. \<open>acquire\<close> returns whether its promise resolved at once.
\<close>

record ConcurrencySemaphore =
  permits :: int
  waitQueue :: "int list"

definition new_semaphore :: "int \<Rightarrow> ConcurrencySemaphore" where
  "new_semaphore p = \<lparr>permits = max 1 p, waitQueue = []\<rparr>"

definition acquire :: "int \<Rightarrow> ConcurrencySemaphore \<Rightarrow> bool \<times> ConcurrencySemaphore" where
  "acquire caller s =
     (if permits s > 0 then (True, s\<lparr>permits := permits s - 1\<rparr>)
      else (False, s\<lparr>waitQueue := waitQueue s @ [caller]\<rparr>))"

definition release :: "ConcurrencySemaphore \<Rightarrow> int option \<times> ConcurrencySemaphore" where
  "release s =
     (let s1 = s\<lparr>permits := permits s + 1\<rparr>
      in case waitQueue s1 of
           [] \<Rightarrow> (None, s1)
         | w # ws \<Rightarrow> (Some w, s1\<lparr>waitQueue := ws, permits := permits s1 - 1\<rparr>))"

section \<open>One phase: makeConcurrentRequests\<close>

text \<open>
  The environment of a run: \<open>world i\<close> is the clock reading and the transport's answer
  for request \<open>i\<close>; \<open>pick\<close> chooses which of the outstanding requests settles next
  (a position in the list of outstanding callers, taken modulo its length), so that every
  completion order is some \<open>pick\<close>; the two clock readings are those of
  \<open>initializeTest\<close> and \<open>finalizeTest\<close>.
\<close>

record env =
  world :: "int \<Rightarrow> int \<times> outcome"
  pick :: "int list \<Rightarrow> nat"
  startClock :: int
  endClock :: int

text \<open>
  The state of one call of \<open>makeConcurrentRequests\<close>: its semaphore, the callers whose
  \<open>acquire\<close> has resolved and whose request is outstanding, and the local \<open>results\<close>
  array in completion order.
\<close>

record phase =
  sem :: ConcurrencySemaphore
  running :: "int list"
  completed :: "RequestResult list"

definition new_phase :: "int \<Rightarrow> phase" where
  "new_phase concurrency_arg = \<lparr>sem = new_semaphore concurrency_arg, running = [], completed = []\<rparr>"

text \<open>The callback of \<open>Array.from\<close> up to its first \<open>await\<close>: the call of \<open>acquire\<close>.\<close>

definition start_task :: "int \<Rightarrow> phase \<Rightarrow> phase" where
  "start_task i p =
     (case acquire i (sem p) of
        (True, s) \<Rightarrow> p\<lparr>sem := s, running := running p @ [i]\<rparr>
      | (False, s) \<Rightarrow> p\<lparr>sem := s\<rparr>)"

text \<open>
  The rest of the callback for caller \<open>i\<close>: its request settles, the result is pushed,
  and the \<open>finally\<close> block releases, which may resolve a suspended caller.
\<close>

definition finish_task :: "(int \<Rightarrow> int \<times> outcome) \<Rightarrow> int \<Rightarrow> phase \<Rightarrow> phase" where
  "finish_task w i p =
     (case release (sem p) of
        (woken, s) \<Rightarrow>
          p\<lparr>sem := s,
            running := remove1 i (running p) @ (case woken of None \<Rightarrow> [] | Some j \<Rightarrow> [j]),
            completed := completed p @ [makeRequest i (fst (w i)) (snd (w i))]\<rparr>)"

definition settle :: "env \<Rightarrow> phase \<Rightarrow> phase" where
  "settle e p = finish_task (world e) (running p ! (pick e (running p) mod length (running p))) p"

function drain :: "env \<Rightarrow> phase \<Rightarrow> phase" where
  "drain e p = (if running p = [] then p else drain e (settle e p))"
  by pat_completeness auto

termination drain
proof (relation "measure (\<lambda>(e, p). length (running p) + length (waitQueue (sem p)))")
  show "wf (measure (\<lambda>(e, p). length (running p) + length (waitQueue (sem p))))"
    by simp
next
  fix e :: env and p :: phase
  assume ne: "running p \<noteq> []"
  let ?i = "running p ! (pick e (running p) mod length (running p))"
  have "?i \<in> set (running p)" using ne by simp
  then have len: "length (remove1 ?i (running p)) = length (running p) - 1"
    by (simp add: length_remove1)
  have pos: "length (running p) > 0" using ne by simp
  have "length (running (settle e p)) + length (waitQueue (sem (settle e p)))
        < length (running p) + length (waitQueue (sem p))"
    using len pos
    by (cases "waitQueue (sem p)") (simp_all add: settle_def finish_task_def release_def Let_def)
  then show "((e, settle e p), (e, p))
             \<in> measure (\<lambda>(e, p). length (running p) + length (waitQueue (sem p)))"
    by simp
qed

declare drain.simps [simp del]

text \<open>
  \<open>Array.from({length: count}, ...)\<close> runs the callback for \<open>i = 0, ..., count - 1\<close> in
  order, each up to its \<open>await\<close>; then the requests settle in the order the environment
  picks. \<open>Promise.all\<close> resolves when every callback has returned: a caller left in the
  queue with no request outstanding would keep it pending for ever, which is \<open>None\<close>.
  A count \<open>cnt\<close> below 1 makes an empty array.
\<close>

definition makeConcurrentRequests :: "env \<Rightarrow> int \<Rightarrow> int \<Rightarrow> int \<Rightarrow> RequestResult list option" where
  "makeConcurrentRequests e startIndex cnt concurrency_arg =
     (let callers = map (\<lambda>i. startIndex + int i) [0..<nat cnt];
          launched = foldl (\<lambda>p i. start_task i p) (new_phase concurrency_arg) callers;
          final = drain e launched
      in if waitQueue (sem final) = [] then Some (sort_key index (completed final)) else None)"

text \<open>
  The acquire/release step relation of one semaphore with \<open>C\<close> configured permits,
  indexed by the history of calls: a caller acquires at most once, and only a caller
  that holds a permit releases.
\<close>

datatype sem_event = Acquire int | Release int

fun arrivals :: "sem_event list \<Rightarrow> int list" where
  "arrivals [] = []"
| "arrivals (Acquire i # evs) = i # arrivals evs"
| "arrivals (Release i # evs) = arrivals evs"

inductive reaches :: "int \<Rightarrow> sem_event list \<Rightarrow> phase \<Rightarrow> bool" for C :: int where
  reaches_init: "reaches C [] (new_phase C)"
| reaches_acquire:
    "reaches C evs p \<Longrightarrow> i \<notin> set (arrivals evs) \<Longrightarrow> reaches C (evs @ [Acquire i]) (start_task i p)"
| reaches_release:
    "reaches C evs p \<Longrightarrow> i \<in> set (running p) \<Longrightarrow> reaches C (evs @ [Release i]) (finish_task w i p)"

section \<open>Pattern scheduler (stress-tester.ts)\<close>

text \<open>
  The state of the driver is the accumulated \<open>results\<close>; \<open>trace\<close> is an instrument that
  records every call of \<open>makeConcurrentRequests\<close> (start index, count, concurrency) and
  every \<open>sleep\<close>, in order. \<open>reportProgress\<close> only calls the observer and is left out.
  The argument of \<open>sleep\<close> is a JavaScript number: a finite one, or the \<open>-Infinity\<close> that
  a division by \<open>-0\<close> produces.
\<close>

datatype millis = Finite rat | NegInfinity

datatype event = Dispatch int int int | Sleep millis

record RunState =
  results :: "RequestResult list"
  trace :: "event list"

definition dispatch :: "env \<Rightarrow> int \<Rightarrow> int \<Rightarrow> int \<Rightarrow> RunState \<Rightarrow> RunState option" where
  "dispatch e startIndex cnt concurrency_arg st =
     (case makeConcurrentRequests e startIndex cnt concurrency_arg of
        None \<Rightarrow> None
      | Some batchResults \<Rightarrow>
          Some (st\<lparr>results := results st @ batchResults,
                   trace := trace st @ [Dispatch startIndex cnt concurrency_arg]\<rparr>))"

definition sleep :: "millis \<Rightarrow> RunState \<Rightarrow> RunState" where
  "sleep ms st = st\<lparr>trace := trace st @ [Sleep ms]\<rparr>"

definition executeBurstPattern :: "env \<Rightarrow> StressTestConfig \<Rightarrow> RunState \<Rightarrow> RunState option" where
  "executeBurstPattern e config st = dispatch e 0 (totalRequests config) (concurrency config) st"

function sustainedLoop ::
  "env \<Rightarrow> StressTestConfig \<Rightarrow> int \<Rightarrow> int \<Rightarrow> int \<Rightarrow> RunState \<Rightarrow> RunState option" where
  "sustainedLoop e config batchSize batches batch st =
     (if batch < batches then
        (let startIndex = batch * batchSize;
             requestsInBatch = min batchSize (totalRequests config - startIndex)
         in case dispatch e startIndex requestsInBatch (concurrency config) st of
              None \<Rightarrow> None
            | Some st1 \<Rightarrow>
                sustainedLoop e config batchSize batches (batch + 1)
                  (if truthy_num (delay config) \<and> batch < batches - 1
                   then sleep (Finite (of_int (the (delay config)))) st1 else st1))
      else Some st)"
  by pat_completeness auto

termination sustainedLoop
  by (relation "measure (\<lambda>(e, config, batchSize, batches, batch, st). nat (batches - batch))") auto

declare sustainedLoop.simps [simp del]

text \<open>
  \<open>Math.ceil(totalRequests / batchSize)\<close> with \<open>batchSize = 0\<close> is \<open>NaN\<close> for
  \<open>totalRequests = 0\<close> (the loop body never runs) and \<open>Infinity\<close> otherwise (the loop never
  ends); neither happens once the constructor has accepted the configuration.
\<close>

definition executeSustainedPattern :: "env \<Rightarrow> StressTestConfig \<Rightarrow> RunState \<Rightarrow> RunState option" where
  "executeSustainedPattern e config st =
     (let batchSize = min (concurrency config) (totalRequests config)
      in if batchSize = 0 then (if totalRequests config = 0 then Some st else None)
         else sustainedLoop e config batchSize
                \<lceil>(of_int (totalRequests config) :: rat) / of_int batchSize\<rceil> 0 st)"

text \<open>
  The pause between ramp-up plateaus, computed after \<open>validateRampUpConfig\<close> has
  passed (so \<open>endC > startC\<close> and \<open>rampUpTime > 0\<close>): a \<open>step\<close> of 0 divides by
  \<open>Infinity\<close>, and a negative step whose quotient lies above \<open>-1\<close> divides by \<open>-0\<close>.
\<close>

definition stepDuration :: "int \<Rightarrow> int \<Rightarrow> int \<Rightarrow> int \<Rightarrow> millis" where
  "stepDuration rampTime startC endC stp =
     (if stp = 0 then Finite 0
      else let d = \<lceil>(of_int (endC - startC) :: rat) / of_int stp\<rceil>
           in if d = 0 then NegInfinity else Finite (of_int rampTime / of_int d))"

text \<open>
  The \<open>while\<close> loop of the ramp-up pattern. Nothing in the source bounds its number of
  iterations, so it is a partial function: \<open>None\<close> is a loop that never ends.
\<close>

partial_function (option) rampUpLoop ::
  "env \<Rightarrow> int \<Rightarrow> int \<Rightarrow> int \<Rightarrow> millis \<Rightarrow> int \<Rightarrow> int \<Rightarrow> RunState \<Rightarrow> RunState option" where
  "rampUpLoop e totalReq endC stp stepDur currentConcurrency requestIndex st =
     (if currentConcurrency \<le> endC \<and> requestIndex < totalReq then
        (let requestsToSend = min currentConcurrency (totalReq - requestIndex)
         in Option.bind (dispatch e requestIndex requestsToSend currentConcurrency st)
              (\<lambda>st1.
                 if currentConcurrency < endC
                 then rampUpLoop e totalReq endC stp stepDur (min (currentConcurrency + stp) endC)
                        (requestIndex + requestsToSend) (sleep stepDur st1)
                 else rampUpLoop e totalReq endC stp stepDur currentConcurrency
                        (requestIndex + requestsToSend) st1))
      else Some st)"

declare rampUpLoop.simps [code]

text \<open>A pattern either returns the new state or throws, leaving the state as it was.\<close>

definition executeRampUpPattern ::
  "env \<Rightarrow> StressTestConfig \<Rightarrow> RunState \<Rightarrow> (error \<times> RunState + RunState) option" where
  "executeRampUpPattern e config st =
     (case rampUp config of
        None \<Rightarrow> Some (Inl (Error ''Ramp-up configuration is required for ramp-up pattern'', st))
      | Some r \<Rightarrow>
          (let stp = (case step r of None \<Rightarrow> 1 | Some s \<Rightarrow> s)
           in case validateRampUpConfig r of
                Inl err \<Rightarrow> Some (Inl (err, st))
              | Inr _ \<Rightarrow>
                  map_option Inr
                    (rampUpLoop e (totalRequests config) (endConcurrency r) stp
                       (stepDuration (rampUpTime r) (startConcurrency r) (endConcurrency r) stp)
                       (startConcurrency r) 0 st)))"

function waveLoop ::
  "env \<Rightarrow> StressTestConfig \<Rightarrow> int \<Rightarrow> int \<Rightarrow> int \<Rightarrow> RunState \<Rightarrow> RunState option" where
  "waveLoop e config waveCount requestsPerWave wave st =
     (if wave < waveCount then
        (let startIndex = wave * requestsPerWave;
             requestsInWave = (if wave = waveCount - 1 then totalRequests config - startIndex
                               else requestsPerWave)
         in case dispatch e startIndex requestsInWave (concurrency config) st of
              None \<Rightarrow> None
            | Some st1 \<Rightarrow>
                waveLoop e config waveCount requestsPerWave (wave + 1)
                  (if wave < waveCount - 1 then sleep (Finite 2000) st1 else st1))
      else Some st)"
  by pat_completeness auto

termination waveLoop
  by (relation "measure (\<lambda>(e, config, waveCount, requestsPerWave, wave, st). nat (waveCount - wave))")
     auto

declare waveLoop.simps [simp del]

definition executeWavePattern :: "env \<Rightarrow> StressTestConfig \<Rightarrow> RunState \<Rightarrow> RunState option" where
  "executeWavePattern e config st =
     (let waveCount = 3;
          requestsPerWave = \<lfloor>(of_int (totalRequests config) :: rat) / of_int waveCount\<rfloor>
      in waveLoop e config waveCount requestsPerWave 0 st)"

text \<open>
  The factors \<open>0.8\<close> and \<open>0.3\<close> are the exact fractions here; on integers below
  \<open>2^50\<close> the rounded double-precision products have the same floor.
\<close>

definition executeSpikePattern :: "env \<Rightarrow> StressTestConfig \<Rightarrow> RunState \<Rightarrow> RunState option" where
  "executeSpikePattern e config st =
     (let spikeRequests = \<lfloor>(of_int (totalRequests config) :: rat) * (8 / 10)\<rfloor>;
          normalRequests = totalRequests config - spikeRequests
      in case (if normalRequests > 0
               then dispatch e 0 normalRequests \<lfloor>(of_int (concurrency config) :: rat) * (3 / 10)\<rfloor> st
               else Some st) of
           None \<Rightarrow> None
         | Some st1 \<Rightarrow>
             dispatch e normalRequests spikeRequests (concurrency config) (sleep (Finite 1000) st1))"

definition executePattern ::
  "env \<Rightarrow> StressTestConfig \<Rightarrow> RunState \<Rightarrow> (error \<times> RunState + RunState) option" where
  "executePattern e config st =
     (case (case pattern config of None \<Rightarrow> Sustained | Some p \<Rightarrow> p) of
        Burst \<Rightarrow> map_option Inr (executeBurstPattern e config st)
      | RampUp \<Rightarrow> executeRampUpPattern e config st
      | Wave \<Rightarrow> map_option Inr (executeWavePattern e config st)
      | Spike \<Rightarrow> map_option Inr (executeSpikePattern e config st)
      | Sustained \<Rightarrow> map_option Inr (executeSustainedPattern e config st))"

record StressTestResult =
  res_config :: StressTestConfig
  requests :: "RequestResult list"
  stats :: TestStats
  res_duration :: int
  startTime :: int
  endTime :: int

definition finalizeTest :: "env \<Rightarrow> StressTestConfig \<Rightarrow> RunState \<Rightarrow> StressTestResult" where
  "finalizeTest e config st =
     \<lparr>res_config = config, requests = results st,
      stats = calculateStats (results st) (startClock e) (endClock e),
      res_duration = endClock e - startClock e,
      startTime = startClock e, endTime = endClock e\<rparr>"

text \<open>
  The constructor validates and keeps the configuration. \<open>run\<close> resets the results,
  executes the pattern and finalises; an error thrown by the pattern is thrown on, and
  the state it left is returned beside it.
\<close>

definition new_StressTester :: "StressTestConfig \<Rightarrow> error + StressTestConfig" where
  "new_StressTester config =
     (case validateConfig config of Inl err \<Rightarrow> Inl err | Inr _ \<Rightarrow> Inr config)"

definition initializeTest :: RunState where
  "initializeTest = \<lparr>results = [], trace = []\<rparr>"

definition run :: "env \<Rightarrow> StressTestConfig \<Rightarrow> (error \<times> RunState + StressTestResult) option" where
  "run e config =
     (case executePattern e config initializeTest of
        None \<Rightarrow> None
      | Some (Inl thrown) \<Rightarrow> Some (Inl thrown)
      | Some (Inr st) \<Rightarrow> Some (Inr (finalizeTest e config st)))"

section \<open>Auxiliary definitions for the proofs\<close>

text \<open>The result that \<open>makeRequest\<close> builds for request \<open>i\<close> in environment \<open>e\<close>.\<close>

definition request_of :: "env \<Rightarrow> int \<Rightarrow> RequestResult" where
  "request_of e i = makeRequest i (fst (world e i)) (snd (world e i))"

text \<open>
  The permit accounting of a phase with \<open>C\<close> configured permits, the callers a phase
  state accounts for, and the agreement of the pushed results with the environment.
\<close>

definition sem_inv :: "int \<Rightarrow> phase \<Rightarrow> bool" where
  "sem_inv C p = (0 \<le> permits (sem p) \<and> permits (sem p) + int (length (running p)) = max 1 C
                  \<and> (waitQueue (sem p) = [] \<or> permits (sem p) = 0))"

definition accounted :: "env \<Rightarrow> phase \<Rightarrow> int multiset" where
  "accounted e p = mset (map index (completed p)) + mset (running p) + mset (waitQueue (sem p))"

definition faithful :: "env \<Rightarrow> phase \<Rightarrow> bool" where
  "faithful e p = (completed p = map (request_of e) (map index (completed p)))"

text \<open>A result carries exactly one of \<open>statusCode\<close> and \<open>error\<close>.\<close>

definition exactly_one_outcome :: "RequestResult \<Rightarrow> bool" where
  "exactly_one_outcome r = ((statusCode r \<noteq> None) \<noteq> (error r \<noteq> None))"

text \<open>
  The two classes as the specification words them: successful is a status code that is
  present and below 400, failed is a status code of at least 400 or an error that is
  present.
\<close>

definition spec_successful :: "RequestResult \<Rightarrow> bool" where
  "spec_successful r = (case statusCode r of None \<Rightarrow> False | Some s \<Rightarrow> s < 400)"

definition spec_failed :: "RequestResult \<Rightarrow> bool" where
  "spec_failed r = ((case statusCode r of None \<Rightarrow> False | Some s \<Rightarrow> s \<ge> 400) \<or> error r \<noteq> None)"

text \<open>
  The nearest-rank percentile as the specification words it: sort the elapsed times
  above 0, take index \<open>ceil(p/100 * n) - 1\<close> clamped to \<open>[0, n - 1]\<close>, and 0 for an
  empty sample.
\<close>

definition rank_index :: "rat \<Rightarrow> nat \<Rightarrow> nat" where
  "rank_index p n = nat (max 0 (min (\<lceil>p / 100 * of_nat n\<rceil> - 1) (int n - 1)))"

definition spec_nearest_rank :: "rat \<Rightarrow> RequestResult list \<Rightarrow> int" where
  "spec_nearest_rank p rs =
     (let sample = sort (map responseTime (filter (\<lambda>r. 0 < responseTime r) rs))
      in if sample = [] then 0 else sample ! rank_index p (length sample))"

text \<open>The index that \<open>calculatePercentile\<close> reads in a non-empty array of length \<open>n\<close>.\<close>

definition calc_index :: "rat \<Rightarrow> nat \<Rightarrow> nat" where
  "calc_index p n =
     nat (max 0 (min (\<lceil>to_double (to_double (p / 100) * of_nat n)\<rceil> - 1) (int n - 1)))"

text \<open>
  A run state extended by the results of the index range \<open>lo, ..., hi - 1\<close> and by
  some trace events.
\<close>

definition extend_run :: "env \<Rightarrow> int \<Rightarrow> int \<Rightarrow> event list \<Rightarrow> RunState \<Rightarrow> RunState" where
  "extend_run e lo hi evs st =
     st\<lparr>results := results st @ map (request_of e) [lo..hi - 1], trace := trace st @ evs\<rparr>"

text \<open>
  The sustained pattern in closed form: the number of phases, and phase \<open>k\<close> with the
  pause that follows it. Every phase before \<open>k\<close> has dispatched a full batch, so
  \<open>k\<close> batches are behind it.
\<close>

definition phase_count :: "StressTestConfig \<Rightarrow> int" where
  "phase_count config = \<lceil>(of_int (totalRequests config) :: rat) / of_int (concurrency config)\<rceil>"

definition sustained_phase :: "StressTestConfig \<Rightarrow> int \<Rightarrow> event list" where
  "sustained_phase config k =
     (let dispatched = k * min (concurrency config) (totalRequests config);
          remaining = totalRequests config - dispatched
      in Dispatch dispatched (min (concurrency config) remaining) (concurrency config)
         # (if truthy_num (delay config) \<and> k < phase_count config - 1
            then [Sleep (Finite (of_int (the (delay config))))] else []))"

text \<open>
  The ramp-up schedule as a terminating recursion: from concurrency \<open>cur\<close> with
  \<open>idx\<close> requests dispatched, a plateau dispatches \<open>min cur remaining\<close> requests; below
  \<open>endC\<close> a pause follows and the concurrency rises by the step, capped at \<open>endC\<close>; at
  \<open>endC\<close> the plateau repeats. The schedule ends when no request remains (or when the
  concurrency is not positive, where the loop of the source does not end).
\<close>

function rampUp_plan :: "int \<Rightarrow> int \<Rightarrow> int \<Rightarrow> millis \<Rightarrow> int \<Rightarrow> int \<Rightarrow> event list" where
  "rampUp_plan totalReq endC stp pause cur idx =
     (if 0 < cur \<and> idx < totalReq then
        Dispatch idx (min cur (totalReq - idx)) cur
        # (if cur < endC
           then Sleep pause
                # rampUp_plan totalReq endC stp pause (min (cur + stp) endC)
                    (idx + min cur (totalReq - idx))
           else rampUp_plan totalReq endC stp pause cur (idx + min cur (totalReq - idx)))
      else [])"
  by pat_completeness auto

termination rampUp_plan
  by (relation "measure (\<lambda>(totalReq, endC, stp, pause, cur, idx). nat (totalReq - idx))") auto

declare rampUp_plan.simps [simp del]

text \<open>
  Two regions of the states of the ramp-up loop: a state from which the loop never
  exits (a negative step has driven the concurrency to 0 or below while requests remain),
  and a state whose results so far are those of the indices below \<open>idx\<close>.
\<close>

definition doomed :: "int \<Rightarrow> int \<Rightarrow> int \<Rightarrow> int \<Rightarrow> int \<Rightarrow> bool" where
  "doomed totalReq endC stp cur idx = (stp < 0 \<and> cur \<le> 0 \<and> cur \<le> endC \<and> idx < totalReq)"

definition on_track :: "int \<Rightarrow> int \<Rightarrow> int \<Rightarrow> int \<Rightarrow> bool" where
  "on_track totalReq endC cur idx = (cur \<le> endC \<and> 0 \<le> idx \<and> idx \<le> totalReq \<and> (0 < cur \<or> idx = totalReq))"


text \<open>The step of a ramp-up block, with the default of the destructuring.\<close>

definition step_of :: "RampUpConfig \<Rightarrow> int" where
  "step_of r = (case step r of None \<Rightarrow> 1 | Some s \<Rightarrow> s)"

text \<open>The pattern a configuration selects (\<open>config.pattern || "sustained"\<close>).\<close>

definition pattern_of :: "StressTestConfig \<Rightarrow> AttackPattern" where
  "pattern_of config = (case pattern config of None \<Rightarrow> Sustained | Some p \<Rightarrow> p)"

text \<open>
  The phases of a trace: start index, count and concurrency of each call of
  \<open>makeConcurrentRequests\<close>, in order; and the trace of a pattern that returned.
\<close>

fun phases :: "event list \<Rightarrow> (int \<times> int \<times> int) list" where
  "phases [] = []"
| "phases (Dispatch s c k # evs) = (s, c, k) # phases evs"
| "phases (Sleep d # evs) = phases evs"

fun returned :: "(error \<times> RunState + RunState) option \<Rightarrow> RunState option" where
  "returned (Some (Inr st)) = Some st"
| "returned (Some (Inl thrown)) = None"
| "returned None = None"

fun trace_of :: "RunState option \<Rightarrow> event list" where
  "trace_of (Some st) = trace st"
| "trace_of None = []"

text \<open>
  The results that the phases of a trace account for: a dispatch of \<open>c\<close> requests from
  index \<open>s\<close> stands for the results of the requests \<open>s, ..., s + c - 1\<close>, a pause for
  none.
\<close>

fun trace_requests :: "env \<Rightarrow> event list \<Rightarrow> RequestResult list" where
  "trace_requests e [] = []"
| "trace_requests e (Dispatch s c k # evs) = map (request_of e) [s..s + c - 1] @ trace_requests e evs"
| "trace_requests e (Sleep d # evs) = trace_requests e evs"

text \<open>
  A concrete environment (every request is answered 200 after 1 ms, and the oldest
  outstanding request settles first) and a concrete valid configuration.
\<close>

definition ok_env :: env where
  "ok_env = \<lparr>world = (\<lambda>i. (0, Resolved \<lparr>status = 200, resp_responseTime = Some 1,
                                           byteLength = Some 0\<rparr>)),
             pick = (\<lambda>xs. 0), startClock = 0, endClock = 1\<rparr>"

definition base_config :: StressTestConfig where
  "base_config = \<lparr>url = ''http://localhost:3000'', concurrency = 10, totalRequests = 100,
                   duration = None, delay = None, timeout = Some 30000, pattern = None,
                   rampUp = None\<rparr>"

definition ramp_10_100 :: RampUpConfig where
  "ramp_10_100 = \<lparr>startConcurrency = 10, endConcurrency = 100, rampUpTime = 9000,
                   step = Some 10\<rparr>"

text \<open>
  Validity as the specification words it: url present, concurrency above 0, total
  requests or duration above 0, timeout above 0, and for the ramp-up pattern start
  concurrency above 0, end above start and ramp-up time above 0.
\<close>

definition spec_rampUp_valid :: "RampUpConfig \<Rightarrow> bool" where
  "spec_rampUp_valid r =
     (0 < startConcurrency r \<and> startConcurrency r < endConcurrency r \<and> 0 < rampUpTime r)"

definition spec_valid :: "StressTestConfig \<Rightarrow> bool" where
  "spec_valid config =
     (url config \<noteq> [] \<and> 0 < concurrency config \<and>
      (0 < totalRequests config \<or> (case duration config of None \<Rightarrow> False | Some d \<Rightarrow> 0 < d)) \<and>
      (case timeout config of None \<Rightarrow> False | Some t \<Rightarrow> 0 < t) \<and>
      (if pattern config = Some RampUp
       then (case rampUp config of None \<Rightarrow> False | Some r \<Rightarrow> spec_rampUp_valid r)
       else True))"

text \<open>
  What the code requires of the ramp-up block before it dispatches: nothing unless the
  pattern is ramp-up, and then a block that \<open>validateRampUpConfig\<close> accepts.
\<close>

definition rampUp_accepted :: "StressTestConfig \<Rightarrow> bool" where
  "rampUp_accepted config =
     (if pattern_of config = RampUp
      then (case rampUp config of None \<Rightarrow> False | Some r \<Rightarrow> validateRampUpConfig r = Inr ())
      else True)"

section \<open>The request executor and the statistics\<close>

lemma formatError_code:
  assumes "code e = Some c" "c \<noteq> []"
  shows "formatError e = c @ '': '' @ show_str (if truthy_str (codeMessages c) then codeMessages c else message e)"
  using assms by (simp add: formatError_def Let_def)

lemma formatError_nonempty: "formatError e \<noteq> []"
proof (cases "truthy_str (code e)")
  case True
  then show ?thesis by (cases "code e") (simp_all add: formatError_def Let_def)
next
  case False
  then show ?thesis
    by (cases "response e"; cases "message e") (auto simp: formatError_def)
qed

lemma codeMessages_cases:
  assumes "codeMessages c = Some m"
  shows "c \<noteq> [] \<and> m \<noteq> []"
  using assms by (auto simp: codeMessages_def split: if_splits)

text \<open>
  C5. \<open>makeRequest\<close> is a total function into results (nothing is raised). A response,
  whatever its status code, gives a result with that status code and no error; a
  rejection gives a result with the formatted error and no status code. The formatted
  error is never empty, starts with the reason code when the error object has one, and
  for the five known codes (refused, host not found, timed out, reset, aborted) is the
  code followed by its fixed message.
\<close>

theorem makeRequest_outcome:
  "index (makeRequest i ts out) = i \<and>
   (case out of
      Resolved r \<Rightarrow>
        statusCode (makeRequest i ts out) = Some (status r) \<and> error (makeRequest i ts out) = None
    | Rejected e \<Rightarrow>
        statusCode (makeRequest i ts out) = None \<and>
        error (makeRequest i ts out) = Some (formatError e) \<and> formatError e \<noteq> [] \<and>
        (\<forall>c. code e = Some c \<and> c \<noteq> [] \<longrightarrow> (\<exists>m. formatError e = c @ '': '' @ m)) \<and>
        (\<forall>c m. code e = Some c \<and> codeMessages c = Some m \<longrightarrow> formatError e = c @ '': '' @ m))"
proof (cases out)
  case (Resolved r)
  then show ?thesis by simp
next
  case (Rejected e)
  have a: "\<forall>c. code e = Some c \<and> c \<noteq> [] \<longrightarrow> (\<exists>m. formatError e = c @ '': '' @ m)"
    using formatError_code by blast
  have b: "\<forall>c m. code e = Some c \<and> codeMessages c = Some m \<longrightarrow> formatError e = c @ '': '' @ m"
  proof (intro allI impI)
    fix c m
    assume h: "code e = Some c \<and> codeMessages c = Some m"
    then have "c \<noteq> []" "m \<noteq> []" using codeMessages_cases by blast+
    then show "formatError e = c @ '': '' @ m"
      using h formatError_code[of e c] by simp
  qed
  show ?thesis using Rejected a b formatError_nonempty by simp
qed

theorem makeRequest_outcome_witness:
  "error (makeRequest 7 1000
      (Rejected \<lparr>code = Some ''ECONNREFUSED'', message = Some ''connect failed'',
                 response = None, err_responseTime = Some 3\<rparr>))
     = Some ''ECONNREFUSED: Connection refused''
   \<and> statusCode (makeRequest 8 1000
        (Resolved \<lparr>status = 503, resp_responseTime = Some 12, byteLength = Some 40\<rparr>)) = Some 503
   \<and> error (makeRequest 8 1000
        (Resolved \<lparr>status = 503, resp_responseTime = Some 12, byteLength = Some 40\<rparr>)) = None"
  using makeRequest_outcome[of 7 1000 "Rejected \<lparr>code = Some ''ECONNREFUSED'',
          message = Some ''connect failed'', response = None, err_responseTime = Some 3\<rparr>"]
        makeRequest_outcome[of 8 1000
          "Resolved \<lparr>status = 503, resp_responseTime = Some 12, byteLength = Some 40\<rparr>"]
  by (simp add: codeMessages_def)

lemma stats_fields:
  "totalRequests_stat (calculateStats rs a b) = length rs"
  "successfulRequests (calculateStats rs a b) = length (filter is_successful rs)"
  "failedRequests (calculateStats rs a b) = length (filter is_failed rs)"
  "p50ResponseTime (calculateStats rs a b) = calculatePercentile (responseTimes rs) 50"
  "p95ResponseTime (calculateStats rs a b) = calculatePercentile (responseTimes rs) 95"
  "p99ResponseTime (calculateStats rs a b) = calculatePercentile (responseTimes rs) 99"
  "maxResponseTime (calculateStats rs a b)
     = num_or (js_nth (responseTimes rs) (int (length (responseTimes rs)) - 1)) 0"
  by (simp_all add: calculateStats_def Let_def)

lemma makeRequest_one_outcome: "exactly_one_outcome (makeRequest i ts out)"
  by (cases out) (simp_all add: exactly_one_outcome_def)

lemma failed_iff_not_successful:
  "exactly_one_outcome r \<Longrightarrow> is_failed r = (\<not> is_successful r)"
  by (cases "statusCode r"; cases "error r")
     (auto simp: exactly_one_outcome_def is_failed_def is_successful_def)

lemma successful_failed_count:
  assumes "list_all exactly_one_outcome rs"
  shows "length (filter is_successful rs) + length (filter is_failed rs) = length rs"
proof -
  have "filter is_failed rs = filter (\<lambda>r. \<not> is_successful r) rs"
    using assms by (intro filter_cong) (auto simp: list_all_iff failed_iff_not_successful)
  then show ?thesis by (simp add: sum_length_filter_compl)
qed

lemma successful_as_worded:
  "statusCode r \<noteq> Some 0 \<Longrightarrow> is_successful r = spec_successful r"
  by (cases "statusCode r") (auto simp: is_successful_def spec_successful_def)

lemma failed_as_worded:
  "exactly_one_outcome r \<Longrightarrow> statusCode r \<noteq> Some 0 \<Longrightarrow> is_failed r = spec_failed r"
  by (cases "statusCode r"; cases "error r")
     (auto simp: is_failed_def spec_failed_def exactly_one_outcome_def)

text \<open>
  C10. Every result of \<open>makeRequest\<close> carries exactly one of \<open>statusCode\<close> and \<open>error\<close>.
  For every collection of results of that shape, the successful and the failed count of
  \<open>calculateStats\<close> add up to the total, and no result is in both classes or in neither.
  When no status code in the collection is 0 (no HTTP status is) the two counts are those
  of the classes as worded: status present and below 400, and status at least 400 or
  error present.
\<close>

theorem outcome_partition:
  "exactly_one_outcome (makeRequest i ts out) \<and>
   (list_all exactly_one_outcome rs \<longrightarrow>
      successfulRequests (calculateStats rs t0 t1) + failedRequests (calculateStats rs t0 t1)
        = totalRequests_stat (calculateStats rs t0 t1) \<and>
      list_all (\<lambda>r. is_successful r \<noteq> is_failed r) rs) \<and>
   (list_all exactly_one_outcome rs \<and> list_all (\<lambda>r. statusCode r \<noteq> Some 0) rs \<longrightarrow>
      successfulRequests (calculateStats rs t0 t1) = length (filter spec_successful rs) \<and>
      failedRequests (calculateStats rs t0 t1) = length (filter spec_failed rs))"
proof (intro conjI impI)
  show "exactly_one_outcome (makeRequest i ts out)" by (rule makeRequest_one_outcome)
next
  assume "list_all exactly_one_outcome rs"
  then show "successfulRequests (calculateStats rs t0 t1) + failedRequests (calculateStats rs t0 t1)
        = totalRequests_stat (calculateStats rs t0 t1)"
    by (simp add: stats_fields successful_failed_count)
next
  assume "list_all exactly_one_outcome rs"
  then show "list_all (\<lambda>r. is_successful r \<noteq> is_failed r) rs"
    by (auto simp: list_all_iff failed_iff_not_successful)
next
  assume h: "list_all exactly_one_outcome rs \<and> list_all (\<lambda>r. statusCode r \<noteq> Some 0) rs"
  then have "filter is_successful rs = filter spec_successful rs"
    by (intro filter_cong) (auto simp: list_all_iff successful_as_worded)
  then show "successfulRequests (calculateStats rs t0 t1) = length (filter spec_successful rs)"
    by (simp add: stats_fields)
next
  assume h: "list_all exactly_one_outcome rs \<and> list_all (\<lambda>r. statusCode r \<noteq> Some 0) rs"
  then have "filter is_failed rs = filter spec_failed rs"
    by (intro filter_cong) (auto simp: list_all_iff failed_as_worded)
  then show "failedRequests (calculateStats rs t0 t1) = length (filter spec_failed rs)"
    by (simp add: stats_fields)
qed

theorem outcome_partition_witness:
  "successfulRequests (calculateStats
       [makeRequest 0 10 (Resolved \<lparr>status = 200, resp_responseTime = Some 5, byteLength = Some 9\<rparr>),
        makeRequest 1 11 (Resolved \<lparr>status = 404, resp_responseTime = Some 6, byteLength = None\<rparr>),
        makeRequest 2 12 (Rejected \<lparr>code = Some ''ECONNRESET'', message = None, response = None,
                                     err_responseTime = None\<rparr>)] 0 100)
   + failedRequests (calculateStats
       [makeRequest 0 10 (Resolved \<lparr>status = 200, resp_responseTime = Some 5, byteLength = Some 9\<rparr>),
        makeRequest 1 11 (Resolved \<lparr>status = 404, resp_responseTime = Some 6, byteLength = None\<rparr>),
        makeRequest 2 12 (Rejected \<lparr>code = Some ''ECONNRESET'', message = None, response = None,
                                     err_responseTime = None\<rparr>)] 0 100)
   = totalRequests_stat (calculateStats
       [makeRequest 0 10 (Resolved \<lparr>status = 200, resp_responseTime = Some 5, byteLength = Some 9\<rparr>),
        makeRequest 1 11 (Resolved \<lparr>status = 404, resp_responseTime = Some 6, byteLength = None\<rparr>),
        makeRequest 2 12 (Rejected \<lparr>code = Some ''ECONNRESET'', message = None, response = None,
                                     err_responseTime = None\<rparr>)] 0 100)
   \<and> failedRequests (calculateStats
       [makeRequest 0 10 (Resolved \<lparr>status = 200, resp_responseTime = Some 5, byteLength = Some 9\<rparr>),
        makeRequest 1 11 (Resolved \<lparr>status = 404, resp_responseTime = Some 6, byteLength = None\<rparr>),
        makeRequest 2 12 (Rejected \<lparr>code = Some ''ECONNRESET'', message = None, response = None,
                                     err_responseTime = None\<rparr>)] 0 100) = 2"
proof -
  let ?rs = "[makeRequest 0 10 (Resolved \<lparr>status = 200, resp_responseTime = Some 5, byteLength = Some 9\<rparr>),
        makeRequest 1 11 (Resolved \<lparr>status = 404, resp_responseTime = Some 6, byteLength = None\<rparr>),
        makeRequest 2 12 (Rejected \<lparr>code = Some ''ECONNRESET'', message = None, response = None,
                                     err_responseTime = None\<rparr>)]"
  have shape: "list_all exactly_one_outcome ?rs"
    by (simp add: exactly_one_outcome_def)
  have nz: "list_all (\<lambda>r. statusCode r \<noteq> Some 0) ?rs" by simp
  have f: "length (filter spec_failed ?rs) = 2" by (simp add: spec_failed_def)
  note part = outcome_partition[of 0 10
      "Resolved \<lparr>status = 200, resp_responseTime = Some 5, byteLength = Some 9\<rparr>" ?rs 0 100]
  have sum: "successfulRequests (calculateStats ?rs 0 100) + failedRequests (calculateStats ?rs 0 100)
             = totalRequests_stat (calculateStats ?rs 0 100)"
    using part shape by blast
  have "failedRequests (calculateStats ?rs 0 100) = length (filter spec_failed ?rs)"
    using part shape nz by blast
  then have "failedRequests (calculateStats ?rs 0 100) = 2" using f by (rule trans)
  then show ?thesis using sum by (rule conjI[rotated])
qed

subsection \<open>Rounding to a double\<close>

lemma pow2_nat: "0 \<le> k \<Longrightarrow> (2::rat) ^ nat k = 2 powi k"
  by (simp add: power_int_nonneg_exp)

lemma floor_log2_bounds:
  assumes "0 < x"
  shows "2 powi (floor_log2 x) \<le> x" and "x < 2 powi (floor_log2 x + 1)"
proof -
  obtain a b where q: "quotient_of x = (a, b)" by (cases "quotient_of x")
  then have b: "0 < b" and x: "x = of_int a / of_int b"
    using quotient_of_denom_pos quotient_of_div by blast+
  have a: "0 < a" using assms x b by (simp add: zero_less_divide_iff)
  let ?d = "bitlen a - bitlen b"
  have la: "1 \<le> bitlen a" "1 \<le> bitlen b"
    using a b bitlen_eq_zero_iff[of a] bitlen_eq_zero_iff[of b] bitlen_nonneg[of a] bitlen_nonneg[of b]
    by linarith+
  have ba: "(2::rat) powi (bitlen a - 1) \<le> of_int a" "(of_int a :: rat) < 2 powi (bitlen a)"
  proof -
    have "2 ^ nat (bitlen a - 1) \<le> a" "a < 2 ^ nat (bitlen a)" using bitlen_bounds[OF a] by simp_all
    then have "(of_int (2 ^ nat (bitlen a - 1)) :: rat) \<le> of_int a" "(of_int a :: rat) < of_int (2 ^ nat (bitlen a))"
      by (simp_all only: of_int_le_iff of_int_less_iff)
    then show "(2::rat) powi (bitlen a - 1) \<le> of_int a" "(of_int a :: rat) < 2 powi (bitlen a)"
      using la by (simp_all add: power_int_nonneg_exp)
  qed
  have bb: "(2::rat) powi (bitlen b - 1) \<le> of_int b" "(of_int b :: rat) < 2 powi (bitlen b)"
  proof -
    have "2 ^ nat (bitlen b - 1) \<le> b" "b < 2 ^ nat (bitlen b)" using bitlen_bounds[OF b] by simp_all
    then have "(of_int (2 ^ nat (bitlen b - 1)) :: rat) \<le> of_int b" "(of_int b :: rat) < of_int (2 ^ nat (bitlen b))"
      by (simp_all only: of_int_le_iff of_int_less_iff)
    then show "(2::rat) powi (bitlen b - 1) \<le> of_int b" "(of_int b :: rat) < 2 powi (bitlen b)"
      using la by (simp_all add: power_int_nonneg_exp)
  qed
  have bpos: "(0::rat) < of_int b" using b by simp
  have lo: "2 powi (?d - 1) \<le> x"
  proof -
    have "(2::rat) powi (?d - 1) = 2 powi (bitlen a - 1) / 2 powi (bitlen b)"
      by (simp add: power_int_diff)
    also have "\<dots> \<le> of_int a / 2 powi (bitlen b)"
      using ba(1) by (simp add: divide_right_mono)
    also have "\<dots> \<le> of_int a / of_int b"
      using bb(2) a bpos by (intro frac_le) (simp_all add: less_imp_le)
    finally show ?thesis unfolding x .
  qed
  have hi: "x < 2 powi (?d + 1)"
  proof -
    have "x = of_int a / of_int b" by (rule x)
    also have "\<dots> < 2 powi (bitlen a) / of_int b"
      using ba(2) bpos by (simp add: divide_strict_right_mono)
    also have "\<dots> \<le> 2 powi (bitlen a) / 2 powi (bitlen b - 1)"
      using bb(1) by (intro frac_le) simp_all
    also have "\<dots> = 2 powi (?d + 1)"
      by (simp add: power_int_diff algebra_simps flip: power_int_diff)
    finally show ?thesis .
  qed
  have fl: "floor_log2 x = (if 2 powi ?d \<le> x then ?d else ?d - 1)"
    by (simp add: floor_log2_def q Let_def)
  show "2 powi (floor_log2 x) \<le> x" using lo by (simp add: fl)
  show "x < 2 powi (floor_log2 x + 1)" using hi by (auto simp add: fl not_le)
qed

lemma pow2_less_imp_less:
  assumes "(2::rat) powi a < 2 powi b"
  shows "a < b"
proof (rule ccontr)
  assume "\<not> a < b"
  then have "b \<le> a" by simp
  then have "(2::rat) powi b \<le> 2 powi a" by (intro power_int_increasing) simp_all
  then show False using assms by linarith
qed

lemma floor_log2_unique:
  assumes "0 < x" "2 powi a \<le> x" "x < 2 powi (a + 1)"
  shows "floor_log2 x = a"
proof -
  note b = floor_log2_bounds[OF assms(1)]
  have "(2::rat) powi (floor_log2 x) < 2 powi (a + 1)" using b(1) assms(3) by (rule le_less_trans)
  then have 1: "floor_log2 x < a + 1" by (rule pow2_less_imp_less)
  have "(2::rat) powi a < 2 powi (floor_log2 x + 1)" using assms(2) b(2) by (rule le_less_trans)
  then have 2: "a < floor_log2 x + 1" by (rule pow2_less_imp_less)
  show ?thesis using 1 2 by linarith
qed

lemma floor_log2_mono:
  assumes "0 < x" "x \<le> y"
  shows "floor_log2 x \<le> floor_log2 y"
proof (rule ccontr)
  assume "\<not> floor_log2 x \<le> floor_log2 y"
  then have "floor_log2 y + 1 \<le> floor_log2 x" by simp
  then have "(2::rat) powi (floor_log2 y + 1) \<le> 2 powi (floor_log2 x)"
    by (intro power_int_increasing) simp_all
  also have "\<dots> \<le> x" using floor_log2_bounds(1)[OF assms(1)] .
  also have "\<dots> \<le> y" by (rule assms(2))
  finally show False using floor_log2_bounds(2)[of y] assms by simp
qed

lemma round_even_cases: "round_even r = \<lfloor>r\<rfloor> \<or> round_even r = \<lfloor>r\<rfloor> + 1"
  by (simp add: round_even_def Let_def)

lemma round_even_of_int [simp]: "round_even (of_int k) = k"
  by (simp add: round_even_def Let_def)

lemma round_even_lower:
  assumes "of_int a \<le> r"
  shows "a \<le> round_even r"
proof -
  have "a \<le> \<lfloor>r\<rfloor>" using assms by (simp add: le_floor_iff)
  then show ?thesis using round_even_cases[of r] by linarith
qed

lemma round_even_upper:
  assumes "r \<le> of_int b"
  shows "round_even r \<le> b"
proof (cases "r = of_int b")
  case True
  then show ?thesis by simp
next
  case False
  then have "r < of_int b" using assms by simp
  then have "\<lfloor>r\<rfloor> < b" by (simp add: floor_less_iff)
  then show ?thesis using round_even_cases[of r] by linarith
qed

lemma round_even_mono:
  assumes "r \<le> s"
  shows "round_even r \<le> round_even s"
proof (cases "\<lfloor>r\<rfloor> = \<lfloor>s\<rfloor>")
  case True
  have "r - of_int \<lfloor>r\<rfloor> \<le> s - of_int \<lfloor>s\<rfloor>" using assms True by simp
  then show ?thesis using True by (auto simp add: round_even_def Let_def)
next
  case False
  then have "\<lfloor>r\<rfloor> < \<lfloor>s\<rfloor>" using floor_mono[OF assms] by simp
  then have "round_even r \<le> \<lfloor>s\<rfloor>" using round_even_cases[of r] by linarith
  also have "\<dots> \<le> round_even s" using round_even_cases[of s] by linarith
  finally show ?thesis .
qed

lemma to_double_pos:
  assumes "0 < x"
  shows "to_double x = of_int (round_even (x * 2 powi (52 - floor_log2 x))) * 2 powi (floor_log2 x - 52)"
  using assms by (simp add: to_double_def Let_def)

lemma pow2_cancel: "(2::rat) powi a * 2 powi (- a) = 1" "(2::rat) powi (- a) * 2 powi a = 1"
  by (simp_all add: power_int_minus)

lemma to_double_le:
  assumes "0 < x" "x \<le> z" "z * 2 powi (52 - floor_log2 x) = of_int j"
  shows "to_double x \<le> z"
proof -
  let ?s = "(2::rat) powi (52 - floor_log2 x)"
  have s: "0 < ?s" by simp
  have "x * ?s \<le> of_int j" using assms(2,3) s by (metis mult_right_mono less_imp_le)
  then have "round_even (x * ?s) \<le> j" by (rule round_even_upper)
  then have "(of_int (round_even (x * ?s)) :: rat) \<le> of_int j" by simp
  then have "of_int (round_even (x * ?s)) * (2::rat) powi (floor_log2 x - 52)
      \<le> of_int j * 2 powi (floor_log2 x - 52)"
    by (intro mult_right_mono) simp_all
  also have "\<dots> = z * (?s * 2 powi (floor_log2 x - 52))" using assms(3) by (simp add: mult.assoc)
  also have "?s * 2 powi (floor_log2 x - 52) = 1"
    using pow2_cancel(2)[of "floor_log2 x - 52"] by simp
  finally show ?thesis unfolding to_double_pos[OF assms(1)] by simp
qed

lemma to_double_ge:
  assumes "0 < x" "z \<le> x" "z * 2 powi (52 - floor_log2 x) = of_int j"
  shows "z \<le> to_double x"
proof -
  let ?s = "(2::rat) powi (52 - floor_log2 x)"
  have s: "0 < ?s" by simp
  have "of_int j \<le> x * ?s" using assms(2,3) s by (metis mult_right_mono less_imp_le)
  then have "j \<le> round_even (x * ?s)" by (rule round_even_lower)
  then have "(of_int j :: rat) \<le> of_int (round_even (x * ?s))" by simp
  then have "of_int j * (2::rat) powi (floor_log2 x - 52)
      \<le> of_int (round_even (x * ?s)) * 2 powi (floor_log2 x - 52)"
    by (intro mult_right_mono) simp_all
  moreover have "of_int j * (2::rat) powi (floor_log2 x - 52) = z * (?s * 2 powi (floor_log2 x - 52))"
    using assms(3) by (simp add: mult.assoc)
  moreover have "?s * 2 powi (floor_log2 x - 52) = 1"
    using pow2_cancel(2)[of "floor_log2 x - 52"] by simp
  ultimately show ?thesis unfolding to_double_pos[OF assms(1)] by simp
qed

lemma to_double_range:
  assumes "0 < x"
  shows "2 powi (floor_log2 x) \<le> to_double x" and "to_double x \<le> 2 powi (floor_log2 x + 1)"
proof -
  have a: "(2::rat) powi (floor_log2 x) * 2 powi (52 - floor_log2 x) = of_int (2 ^ 52)"
    by (simp flip: power_int_add)
  show "2 powi (floor_log2 x) \<le> to_double x"
    using to_double_ge[OF assms floor_log2_bounds(1)[OF assms] a] .
  have b: "(2::rat) powi (floor_log2 x + 1) * 2 powi (52 - floor_log2 x) = of_int (2 ^ 53)"
    by (simp flip: power_int_add)
  show "to_double x \<le> 2 powi (floor_log2 x + 1)"
    using to_double_le[OF assms less_imp_le[OF floor_log2_bounds(2)[OF assms]] b] .
qed

lemma to_double_mono:
  assumes "0 \<le> x" "x \<le> y"
  shows "to_double x \<le> to_double y"
proof (cases "x = 0")
  case True
  show ?thesis
  proof (cases "y = 0")
    case True
    then show ?thesis using \<open>x = 0\<close> by simp
  next
    case False
    then have y: "0 < y" using assms True by simp
    have "0 \<le> (2::rat) powi (floor_log2 y)" by simp
    also have "\<dots> \<le> to_double y" using to_double_range(1)[OF y] .
    finally show ?thesis using True by (simp add: to_double_def)
  qed
next
  case False
  then have x: "0 < x" using assms by simp
  then have y: "0 < y" using assms by simp
  have le: "floor_log2 x \<le> floor_log2 y" using floor_log2_mono[OF x assms(2)] .
  show ?thesis
  proof (cases "floor_log2 x = floor_log2 y")
    case True
    have "x * 2 powi (52 - floor_log2 y) \<le> y * 2 powi (52 - floor_log2 y)"
      using assms(2) by (intro mult_right_mono) simp_all
    then have "round_even (x * 2 powi (52 - floor_log2 y)) \<le> round_even (y * 2 powi (52 - floor_log2 y))"
      by (rule round_even_mono)
    then have "(of_int (round_even (x * 2 powi (52 - floor_log2 y))) :: rat)
        \<le> of_int (round_even (y * 2 powi (52 - floor_log2 y)))" by simp
    then show ?thesis
      unfolding to_double_pos[OF x] to_double_pos[OF y] True
      by (intro mult_right_mono) simp_all
  next
    case False
    then have "floor_log2 x + 1 \<le> floor_log2 y" using le by simp
    then have "(2::rat) powi (floor_log2 x + 1) \<le> 2 powi (floor_log2 y)"
      by (intro power_int_increasing) simp_all
    then show ?thesis
      using to_double_range(2)[OF x] to_double_range(1)[OF y] by linarith
  qed
qed

lemma ceil_product_exact:
  fixes n :: nat and p :: int and c :: rat
  assumes c: "0 < c" "c \<le> of_int p / 100" "of_int p / 100 - c \<le> 1 / 2 ^ 53"
    and p: "p \<le> 100" and n: "0 < n" "n < 2 ^ 32"
  shows "\<lceil>to_double (c * of_nat n)\<rceil> = \<lceil>(of_int p / 100 :: rat) * of_nat n\<rceil>"
proof -
  let ?q = "of_int p / 100 :: rat"
  let ?x = "c * of_nat n"
  let ?k = "\<lceil>?q * of_nat n\<rceil>"
  have npos: "(0::rat) < of_nat n" using n(1) by simp
  have nlt: "(of_nat n :: rat) < 2 ^ 32"
  proof -
    have "(of_nat n :: rat) < of_nat (2 ^ 32)" using n(2) by (simp only: of_nat_less_iff)
    then show ?thesis by simp
  qed
  have x: "0 < ?x" using c(1) npos by simp
  have q1: "?q \<le> 1" using p by simp
  have xq: "?x \<le> ?q * of_nat n" using c(2) npos by (simp add: mult_right_mono)
  have xk: "?x \<le> of_int ?k" using xq le_of_int_ceiling[of "?q * of_nat n"] by linarith
  have "?q * of_nat n \<le> 1 * of_nat n" using q1 npos by (intro mult_right_mono) simp_all
  then have "?x < 2 ^ 32" using xq nlt by linarith
  then have "(2::rat) powi (floor_log2 ?x) < 2 powi 32"
    using floor_log2_bounds(1)[OF x] by simp
  then have fl: "floor_log2 ?x < 32" by (rule pow2_less_imp_less)
  define s where "s = 52 - floor_log2 ?x"
  have s: "21 \<le> s" using fl by (simp add: s_def)
  have ps: "(2::rat) powi s = of_int (2 ^ nat s)" using s by (simp add: power_int_nonneg_exp)
  have ps20: "(2::rat) powi s = 2 ^ 20 * of_int (2 ^ nat (s - 20))"
  proof -
    have "(2::rat) powi (20 + (s - 20)) = 2 powi 20 * 2 powi (s - 20)"
      by (rule power_int_add) simp
    moreover have "20 + (s - 20) = s" by simp
    ultimately have "(2::rat) powi s = 2 powi 20 * 2 powi (s - 20)" by (simp only:)
    moreover have "(2::rat) powi (s - 20) = of_int (2 ^ nat (s - 20))"
      using s by (simp add: power_int_nonneg_exp)
    ultimately show ?thesis by simp
  qed
  have up: "of_int ?k * (2::rat) powi (52 - floor_log2 ?x) = of_int (?k * 2 ^ nat s)"
    unfolding s_def[symmetric] ps by simp
  have upper: "to_double ?x \<le> of_int ?k" using to_double_le[OF x xk up] .
  let ?y = "of_int (?k - 1) + 1 / 2 ^ 20 :: rat"
  have lo: "?y * (2::rat) powi (52 - floor_log2 ?x) = of_int ((?k - 1) * 2 ^ nat s + 2 ^ nat (s - 20))"
  proof -
    have "?y * (2::rat) powi s = of_int (?k - 1) * 2 powi s + (1 / 2 ^ 20) * 2 powi s"
      by (simp add: algebra_simps)
    also have "(1 / 2 ^ 20) * (2::rat) powi s = of_int (2 ^ nat (s - 20))"
      by (subst ps20) simp
    finally show ?thesis unfolding s_def[symmetric] ps by simp
  qed
  have pn: "?q * of_nat n = of_int (p * int n) / 100" by simp
  have "of_int (?k - 1) < ?q * of_nat n" using ceiling_correct[of "?q * of_nat n"] by simp
  then have "(of_int (?k - 1) :: rat) < of_int (p * int n) / 100" unfolding pn .
  then have "(of_int (100 * (?k - 1)) :: rat) < of_int (p * int n)" by simp
  then have "100 * (?k - 1) < p * int n" by (simp only: of_int_less_iff)
  then have "100 * (?k - 1) + 1 \<le> p * int n" by simp
  then have "(of_int (100 * (?k - 1) + 1) :: rat) \<le> of_int (p * int n)" by (simp only: of_int_le_iff)
  then have qn: "of_int (?k - 1) + 1 / 100 \<le> ?q * of_nat n" unfolding pn by simp
  have "(?q - c) * of_nat n \<le> (1 / 2 ^ 53) * 2 ^ 32"
    using c(2,3) nlt npos by (intro mult_mono) simp_all
  then have "?q * of_nat n - ?x \<le> (1 / 2 ^ 53) * 2 ^ 32" by (simp add: algebra_simps)
  then have yx: "?y \<le> ?x" using qn by simp
  have lower: "?y \<le> to_double ?x" using to_double_ge[OF x yx lo] .
  have "of_int ?k - 1 < to_double ?x" using lower by simp
  then have "\<lceil>to_double ?x\<rceil> = ?k" using upper by (intro ceiling_unique)
  then show ?thesis .
qed

lemma to_double_value:
  assumes "0 < x" "2 powi a \<le> x" "x < 2 powi (a + 1)" "round_even (x * 2 powi (52 - a)) = m"
  shows "to_double x = of_int m * 2 powi (a - 52)"
  using assms(4) unfolding to_double_pos[OF assms(1)] floor_log2_unique[OF assms(1,2,3)] by simp

lemma to_double_50: "to_double (50 / 100) = 1 / 2"
proof -
  have r: "round_even (50 / 100 * 2 powi (52 - (- 1))) = 2 ^ 52"
    by (simp add: round_even_def Let_def)
  show ?thesis using to_double_value[of "50 / 100" "- 1", OF _ _ _ r]
    by (simp add: power_int_minus)
qed

lemma to_double_95: "to_double (95 / 100) = 8556839292003942 / 2 ^ 53"
proof -
  have r: "round_even (95 / 100 * 2 powi (52 - (- 1))) = 8556839292003942"
    by code_simp
  show ?thesis using to_double_value[of "95 / 100" "- 1", OF _ _ _ r]
    by (simp add: power_int_minus)
qed

lemma to_double_99: "to_double (99 / 100) = 8917127262193582 / 2 ^ 53"
proof -
  have r: "round_even (99 / 100 * 2 powi (52 - (- 1))) = 8917127262193582"
    by code_simp
  show ?thesis using to_double_value[of "99 / 100" "- 1", OF _ _ _ r]
    by (simp add: power_int_minus)
qed

lemma to_double_7: "to_double (7 / 100) = 5044031582654956 / 2 ^ 56"
proof -
  have r: "round_even (7 / 100 * 2 powi (52 - (- 4))) = 5044031582654956"
    by code_simp
  show ?thesis using to_double_value[of "7 / 100" "- 4", OF _ _ _ r]
    by (simp add: power_int_minus)
qed

lemma to_double_7_100: "to_double (5044031582654956 / 2 ^ 56 * 100) = 7881299347898369 / 2 ^ 50"
proof -
  have r: "round_even (5044031582654956 / 2 ^ 56 * 100 * 2 powi (52 - 2)) = 7881299347898369"
    by code_simp
  show ?thesis using to_double_value[of "5044031582654956 / 2 ^ 56 * 100" 2, OF _ _ _ r]
    by (simp add: power_int_minus)
qed

subsection \<open>Percentiles\<close>

lemma rank_index_lt: "n > 0 \<Longrightarrow> rank_index p n < n"
  by (auto simp: rank_index_def)

lemma calc_index_lt: "n > 0 \<Longrightarrow> calc_index p n < n"
  by (auto simp: calc_index_def)

lemma calc_index_mono:
  assumes "0 \<le> p" "p \<le> q"
  shows "calc_index p n \<le> calc_index q n"
proof -
  have "to_double 0 \<le> to_double (p / 100)" using assms(1) by (intro to_double_mono) simp_all
  then have c0: "0 \<le> to_double (p / 100)" by (simp add: to_double_def)
  have "to_double (p / 100) \<le> to_double (q / 100)"
    using assms by (intro to_double_mono) simp_all
  then have "to_double (p / 100) * of_nat n \<le> to_double (q / 100) * of_nat n"
    by (intro mult_right_mono) simp_all
  moreover have "0 \<le> to_double (p / 100) * of_nat n" using c0 by simp
  ultimately have "to_double (to_double (p / 100) * of_nat n)
      \<le> to_double (to_double (q / 100) * of_nat n)"
    by (intro to_double_mono)
  then have "\<lceil>to_double (to_double (p / 100) * of_nat n)\<rceil>
      \<le> \<lceil>to_double (to_double (q / 100) * of_nat n)\<rceil>" by (rule ceiling_mono)
  then show ?thesis by (auto simp: calc_index_def)
qed

lemma calc_index_50:
  assumes "0 < n" "n < 2 ^ 32"
  shows "calc_index 50 n = rank_index 50 n"
proof -
  have "\<lceil>to_double (1 / 2 * of_nat n)\<rceil> = \<lceil>(of_int 50 / 100 :: rat) * of_nat n\<rceil>"
    using assms by (intro ceil_product_exact) simp_all
  then show ?thesis
    unfolding calc_index_def rank_index_def to_double_50 by simp
qed

lemma calc_index_95:
  assumes "0 < n" "n < 2 ^ 32"
  shows "calc_index 95 n = rank_index 95 n"
proof -
  have "\<lceil>to_double (8556839292003942 / 2 ^ 53 * of_nat n)\<rceil>
        = \<lceil>(of_int 95 / 100 :: rat) * of_nat n\<rceil>"
    using assms by (intro ceil_product_exact) simp_all
  then show ?thesis
    unfolding calc_index_def rank_index_def to_double_95 by simp
qed

lemma calc_index_99:
  assumes "0 < n" "n < 2 ^ 32"
  shows "calc_index 99 n = rank_index 99 n"
proof -
  have "\<lceil>to_double (8917127262193582 / 2 ^ 53 * of_nat n)\<rceil>
        = \<lceil>(of_int 99 / 100 :: rat) * of_nat n\<rceil>"
    using assms by (intro ceil_product_exact) simp_all
  then show ?thesis
    unfolding calc_index_def rank_index_def to_double_99 by simp
qed

lemma calc_index_7_100: "calc_index 7 100 = 7"
proof -
  have v: "to_double (to_double (7 / 100) * of_nat 100) = 7881299347898369 / 2 ^ 50"
    unfolding to_double_7 using to_double_7_100 by simp
  have c: "\<lceil>7881299347898369 / 2 ^ 50 :: rat\<rceil> = 8" by code_simp
  show ?thesis
    unfolding calc_index_def v c by simp
qed

lemma calculatePercentile_nth:
  "xs \<noteq> [] \<Longrightarrow> calculatePercentile xs p = Some (xs ! calc_index p (length xs))"
  by (auto simp: calculatePercentile_def js_nth_def calc_index_def Let_def)

lemma calculatePercentile_empty: "calculatePercentile [] p = Some 0"
  by (simp add: calculatePercentile_def)

lemma spec_nearest_rank_unfold:
  "spec_nearest_rank p rs =
     (if responseTimes rs = [] then 0
      else responseTimes rs ! rank_index p (length (responseTimes rs)))"
  by (simp add: spec_nearest_rank_def responseTimes_def Let_def)

lemma sorted_responseTimes: "sorted (responseTimes rs)"
  by (simp add: responseTimes_def)

lemma responseTimes_positive: "x \<in> set (responseTimes rs) \<Longrightarrow> 0 < x"
  by (auto simp: responseTimes_def)

text \<open>
  C6 (as amended). For the percentiles that the aggregator computes, 50, 95 and 99, and a
  sample of fewer than \<open>2^32\<close> elapsed times (a JavaScript array has no more), the
  percentile is the nearest-rank value of the specification: over the elapsed times above
  0 sorted ascending, the element at index \<open>ceil(p/100 * n) - 1\<close> clamped to
  \<open>[0, n - 1]\<close>, and 0 for an empty sample. For every \<open>p\<close> the read is inside the array
  and the value is a member of the sample (nothing is interpolated), or 0 for an empty
  sample.
\<close>

theorem percentile_nearest_rank:
  assumes "length (responseTimes rs) < 2 ^ 32"
  shows "p50ResponseTime (calculateStats rs t0 t1) = Some (spec_nearest_rank 50 rs) \<and>
         p95ResponseTime (calculateStats rs t0 t1) = Some (spec_nearest_rank 95 rs) \<and>
         p99ResponseTime (calculateStats rs t0 t1) = Some (spec_nearest_rank 99 rs) \<and>
         (\<exists>v. calculatePercentile (responseTimes rs) p = Some v \<and>
              (if responseTimes rs = [] then v = 0 else v \<in> set (responseTimes rs)))"
proof (cases "responseTimes rs = []")
  case True
  then show ?thesis
    by (simp add: stats_fields calculatePercentile_empty spec_nearest_rank_unfold)
next
  case False
  then have n: "0 < length (responseTimes rs)" by simp
  have "responseTimes rs ! calc_index p (length (responseTimes rs)) \<in> set (responseTimes rs)"
    using calc_index_lt[OF n, of p] by simp
  then show ?thesis
    using False
    by (simp add: stats_fields calculatePercentile_nth[OF False] spec_nearest_rank_unfold
        calc_index_50[OF n assms] calc_index_95[OF n assms] calc_index_99[OF n assms])
qed

theorem percentile_nearest_rank_witness:
  "p50ResponseTime (calculateStats
      [makeRequest 0 10 (Resolved \<lparr>status = 200, resp_responseTime = Some 9, byteLength = None\<rparr>),
       makeRequest 1 11 (Resolved \<lparr>status = 200, resp_responseTime = Some 5, byteLength = None\<rparr>),
       makeRequest 2 12 (Resolved \<lparr>status = 200, resp_responseTime = None, byteLength = None\<rparr>)]
      0 100) = Some 5
   \<and> p95ResponseTime (calculateStats
      [makeRequest 0 10 (Resolved \<lparr>status = 200, resp_responseTime = Some 9, byteLength = None\<rparr>),
       makeRequest 1 11 (Resolved \<lparr>status = 200, resp_responseTime = Some 5, byteLength = None\<rparr>),
       makeRequest 2 12 (Resolved \<lparr>status = 200, resp_responseTime = None, byteLength = None\<rparr>)]
      0 100) = Some 9"
proof -
  let ?rs = "[makeRequest 0 10 (Resolved \<lparr>status = 200, resp_responseTime = Some 9, byteLength = None\<rparr>),
       makeRequest 1 11 (Resolved \<lparr>status = 200, resp_responseTime = Some 5, byteLength = None\<rparr>),
       makeRequest 2 12 (Resolved \<lparr>status = 200, resp_responseTime = None, byteLength = None\<rparr>)]"
  have rt: "responseTimes ?rs = [5, 9]" by (simp add: responseTimes_def)
  have len: "length (responseTimes ?rs) < 2 ^ 32" unfolding rt by simp
  have i50: "rank_index 50 2 = 0" by (simp add: rank_index_def)
  have "\<lceil>(95 / 100 :: rat) * 2\<rceil> = 2" by (simp add: ceiling_eq_iff)
  then have i95: "rank_index 95 2 = 1" by (simp add: rank_index_def)
  have l2: "length [5, 9 :: int] = 2" by simp
  have s50: "spec_nearest_rank 50 ?rs = 5" unfolding spec_nearest_rank_unfold rt l2 i50 by simp
  have s95: "spec_nearest_rank 95 ?rs = 9" unfolding spec_nearest_rank_unfold rt l2 i95 by simp
  note T = percentile_nearest_rank[OF len, of 0 100 50]
  have a: "p50ResponseTime (calculateStats ?rs 0 100) = Some 5"
    using T unfolding s50 by (elim conjE)
  have b: "p95ResponseTime (calculateStats ?rs 0 100) = Some 9"
    using T unfolding s95 by (elim conjE)
  show ?thesis using a b by (rule conjI)
qed

text \<open>
  The claim as written holds for every percentile. For the percentile 7 of the hundred
  elapsed times 1, 2, ..., 100 the nearest rank is the element at index 6, which is 7;
  the product \<open>(7 / 100) * 100\<close> in doubles lies just above 7, its ceiling is 8, and
  \<open>calculatePercentile\<close> returns the element at index 7, which is 8.
\<close>

theorem percentile_7_of_100_counterexample:
  "calculatePercentile [1..100] 7 = Some 8 \<and> [1..100] ! rank_index 7 (length [1..100]) = 7"
proof -
  have ne: "[1..100] \<noteq> ([] :: int list)" by (simp add: upto_rec1)
  have len: "length [1..(100::int)] = 100" by simp
  have a: "[1..(100::int)] ! 7 = 8" by (simp add: nth_upto)
  have r: "rank_index 7 100 = 6" by (simp add: rank_index_def)
  have b: "[1..(100::int)] ! 6 = 7" by (simp add: nth_upto)
  show ?thesis
    unfolding calculatePercentile_nth[OF ne] len calc_index_7_100 r using a b by simp
qed

text \<open>
  C7. The percentiles of \<open>calculateStats\<close> are ordered: p50, p95 and p99 are all read
  inside the array and p50 \<open>\<le>\<close> p95 \<open>\<le>\<close> p99 \<open>\<le>\<close> max. This holds for every result
  collection, the non-empty samples among them (an empty sample gives four zeros).
\<close>

theorem percentile_monotone:
  "\<exists>a b c. p50ResponseTime (calculateStats rs t0 t1) = Some a \<and>
            p95ResponseTime (calculateStats rs t0 t1) = Some b \<and>
            p99ResponseTime (calculateStats rs t0 t1) = Some c \<and>
            a \<le> b \<and> b \<le> c \<and> c \<le> maxResponseTime (calculateStats rs t0 t1)"
proof (cases "responseTimes rs = []")
  case True
  then show ?thesis
    by (simp add: stats_fields calculatePercentile_def js_nth_def)
next
  case False
  let ?xs = "responseTimes rs"
  let ?n = "length ?xs"
  have n: "0 < ?n" using False by simp
  have i50: "calc_index 50 ?n \<le> calc_index 95 ?n" by (rule calc_index_mono) simp_all
  have i95: "calc_index 95 ?n \<le> calc_index 99 ?n" by (rule calc_index_mono) simp_all
  have i99: "calc_index 99 ?n \<le> ?n - 1" using calc_index_lt[OF n, of 99] by simp
  have lt: "calc_index 95 ?n < ?n" "calc_index 99 ?n < ?n" "?n - 1 < ?n"
    using calc_index_lt[OF n] n by simp_all
  have a: "?xs ! calc_index 50 ?n \<le> ?xs ! calc_index 95 ?n"
    using sorted_nth_mono[OF sorted_responseTimes i50 lt(1)] .
  have b: "?xs ! calc_index 95 ?n \<le> ?xs ! calc_index 99 ?n"
    using sorted_nth_mono[OF sorted_responseTimes i95 lt(2)] .
  have c: "?xs ! calc_index 99 ?n \<le> ?xs ! (?n - 1)"
    using sorted_nth_mono[OF sorted_responseTimes i99 lt(3)] .
  have "?xs ! (?n - 1) \<in> set ?xs" using lt(3) nth_mem by blast
  then have pos: "0 < ?xs ! (?n - 1)" by (rule responseTimes_positive)
  have idx: "nat (int ?n - 1) = ?n - 1" by simp
  have mx: "maxResponseTime (calculateStats rs t0 t1) = ?xs ! (?n - 1)"
    using n pos by (simp add: stats_fields js_nth_def idx)
  show ?thesis
    using a b c mx by (simp add: stats_fields calculatePercentile_nth[OF False])
qed

section \<open>One phase returns every result of its index range\<close>

lemma index_request_of [simp]: "index (request_of e i) = i"
  by (cases "snd (world e i)") (simp_all add: request_of_def)

lemma sem_inv_new: "sem_inv C (new_phase C)"
  by (simp add: sem_inv_def new_phase_def new_semaphore_def)

lemma sem_inv_start: "sem_inv C p \<Longrightarrow> sem_inv C (start_task i p)"
  by (auto simp: sem_inv_def start_task_def acquire_def)

lemma sem_inv_finish:
  assumes "sem_inv C p" "i \<in> set (running p)"
  shows "sem_inv C (finish_task w i p)"
proof -
  have "length (running p) > 0"
    using assms(2) by (auto simp: length_pos_if_in_set)
  then have "int (length (remove1 i (running p))) = int (length (running p)) - 1"
    using assms(2) by (cases "length (running p)") (simp_all add: length_remove1)
  then show ?thesis using assms(1)
    by (cases "waitQueue (sem p)") (auto simp: sem_inv_def finish_task_def release_def Let_def)
qed

lemma accounted_start: "accounted e (start_task i p) = accounted e p + {#i#}"
  by (simp add: accounted_def start_task_def acquire_def)

lemma faithful_start: "faithful e (start_task i p) = faithful e p"
  by (simp add: faithful_def start_task_def acquire_def)

lemma accounted_finish:
  assumes "i \<in> set (running p)"
  shows "accounted e (finish_task (world e) i p) = accounted e p"
  using assms
  by (cases "waitQueue (sem p)")
     (simp_all add: accounted_def finish_task_def release_def Let_def request_of_def[symmetric])

lemma faithful_finish: "faithful e p \<Longrightarrow> faithful e (finish_task (world e) i p)"
  by (cases "waitQueue (sem p)")
     (simp_all add: faithful_def finish_task_def release_def Let_def request_of_def[symmetric])

lemma launch_inv:
  "sem_inv C p \<Longrightarrow>
   sem_inv C (foldl (\<lambda>p i. start_task i p) p ids)
   \<and> accounted e (foldl (\<lambda>p i. start_task i p) p ids) = accounted e p + mset ids
   \<and> faithful e (foldl (\<lambda>p i. start_task i p) p ids) = faithful e p"
  by (induction ids arbitrary: p) (simp_all add: sem_inv_start accounted_start faithful_start)

lemma drain_inv:
  "sem_inv C p \<Longrightarrow> faithful e p \<Longrightarrow>
   sem_inv C (drain e p) \<and> faithful e (drain e p) \<and> accounted e (drain e p) = accounted e p
   \<and> running (drain e p) = []"
proof (induction e p rule: drain.induct)
  case (1 e p)
  show ?case
  proof (cases "running p = []")
    case True
    then have "drain e p = p" by (subst drain.simps) simp
    then show ?thesis using "1.prems" True by simp
  next
    case False
    have m: "running p ! (pick e (running p) mod length (running p)) \<in> set (running p)"
      using False by simp
    have a: "sem_inv C (settle e p)" using "1.prems"(1) m by (simp add: settle_def sem_inv_finish)
    have b: "faithful e (settle e p)" using "1.prems"(2) by (simp add: settle_def faithful_finish)
    have c: "accounted e (settle e p) = accounted e p" using m by (simp add: settle_def accounted_finish)
    have u: "drain e p = drain e (settle e p)" using False by (subst drain.simps) simp
    from "1.IH"[OF False a b] c show ?thesis unfolding u by simp
  qed
qed

lemma insort_key_map_request:
  "insort_key index (request_of e x) (map (request_of e) xs) = map (request_of e) (insort x xs)"
  by (induction xs) simp_all

lemma sort_key_map_request: "sort_key index (map (request_of e) xs) = map (request_of e) (sort xs)"
  by (induction xs) (simp_all add: insort_key_map_request)

lemma callers_upto: "map (\<lambda>i. s + int i) [0..<n] = [s..s + int n - 1]"
proof (induction n)
  case 0
  then show ?case by simp
next
  case (Suc n)
  have "[s..s + int (Suc n) - 1] = [s..s + int n - 1] @ [s + int n]"
    using upto_rec2[of s "s + int n"] by simp
  then show ?case using Suc by simp
qed

lemma makeConcurrentRequests_eq:
  "makeConcurrentRequests e s c k = Some (map (request_of e) [s..s + c - 1])"
proof -
  let ?ids = "map (\<lambda>i. s + int i) [0..<nat c]"
  let ?p1 = "foldl (\<lambda>p i. start_task i p) (new_phase k) ?ids"
  let ?p2 = "drain e ?p1"
  have f0: "faithful e (new_phase k)" by (simp add: faithful_def new_phase_def)
  have a0: "accounted e (new_phase k) = {#}" by (simp add: accounted_def new_phase_def new_semaphore_def)
  from launch_inv[OF sem_inv_new, where e = e and ids = ?ids and C = k] f0 a0
  have l: "sem_inv k ?p1" "accounted e ?p1 = mset ?ids" "faithful e ?p1" by simp_all
  from drain_inv[OF l(1) l(3)] l(2)
  have d: "sem_inv k ?p2" "faithful e ?p2" "accounted e ?p2 = mset ?ids" "running ?p2 = []"
    by simp_all
  from d(1) d(4) have q: "waitQueue (sem ?p2) = []" by (auto simp: sem_inv_def)
  let ?js = "map index (completed ?p2)"
  from d(3) d(4) q have ms: "mset ?js = mset ?ids" by (simp add: accounted_def)
  have ids: "?ids = [s..s + c - 1]" using callers_upto[of s "nat c"] by (cases "c \<le> 0") simp_all
  have ms': "mset [s..s + c - 1] = mset ?js" using ms ids by simp
  have srt: "sorted [s..s + c - 1]" by simp
  have "sort ?js = [s..s + c - 1]"
    using ms' srt by (rule properties_for_sort)
  moreover have "completed ?p2 = map (request_of e) ?js" using d(2) by (simp add: faithful_def)
  ultimately have "sort_key index (completed ?p2) = map (request_of e) [s..s + c - 1]"
    using sort_key_map_request[of e ?js] by simp
  then show ?thesis using q by (simp add: makeConcurrentRequests_def Let_def)
qed

lemma dispatch_eq:
  "dispatch e s c k st =
     Some (st\<lparr>results := results st @ map (request_of e) [s..s + c - 1],
              trace := trace st @ [Dispatch s c k]\<rparr>)"
  by (simp add: dispatch_def makeConcurrentRequests_eq)

lemma upto_append: "i \<le> j \<Longrightarrow> j \<le> k + 1 \<Longrightarrow> [i..j - 1] @ [j..k] = [i..k]"
  using upto_split2[of i "j - 1" k] by (cases "i = j") simp_all

section \<open>The pattern scheduler\<close>

lemma dispatch_extend: "dispatch e s c k st = Some (extend_run e s (s + c) [Dispatch s c k] st)"
  by (simp add: dispatch_eq extend_run_def)

lemma sleep_extend: "sleep ms st = extend_run e lo lo [Sleep ms] st"
  by (simp add: sleep_def extend_run_def)

lemma extend_extend:
  "lo \<le> mid \<Longrightarrow> mid \<le> hi \<Longrightarrow>
   extend_run e mid hi evs2 (extend_run e lo mid evs1 st) = extend_run e lo hi (evs1 @ evs2) st"
  using upto_append[of lo mid "hi - 1"] by (simp add: extend_run_def flip: map_append)

lemma extend_nothing: "extend_run e lo lo [] st = st"
  by (simp add: extend_run_def)

lemma executeBurstPattern_eq:
  "executeBurstPattern e config st =
     Some (extend_run e 0 (totalRequests config)
             [Dispatch 0 (totalRequests config) (concurrency config)] st)"
  by (simp add: executeBurstPattern_def dispatch_extend)

lemma floor_8_10: "0 \<le> (n::int) \<Longrightarrow> 0 \<le> \<lfloor>(of_int n :: rat) * (8 / 10)\<rfloor> \<and> \<lfloor>(of_int n :: rat) * (8 / 10)\<rfloor> \<le> n"
proof -
  assume n: "0 \<le> n"
  have a: "(0::rat) \<le> of_int n * (8 / 10)" using n by simp
  have b: "(of_int n :: rat) * (8 / 10) \<le> of_int n" using n by simp
  show ?thesis using a b by (simp add: le_floor_iff floor_le_iff)
qed

lemma spike_normal_positive:
  "0 < (n::int) \<Longrightarrow> 0 < n - \<lfloor>(of_int n :: rat) * (8 / 10)\<rfloor>"
proof -
  assume n: "0 < n"
  have "(of_int n :: rat) * (8 / 10) < of_int n" using n by simp
  then have "\<lfloor>(of_int n :: rat) * (8 / 10)\<rfloor> < n" by (simp add: floor_less_iff)
  then show ?thesis by simp
qed

lemma executeSpikePattern_eq:
  assumes "0 < totalRequests config"
  shows "executeSpikePattern e config st =
     Some (extend_run e 0 (totalRequests config)
       [Dispatch 0 (totalRequests config - \<lfloor>(of_int (totalRequests config) :: rat) * (8 / 10)\<rfloor>)
                   \<lfloor>(of_int (concurrency config) :: rat) * (3 / 10)\<rfloor>,
        Sleep (Finite 1000),
        Dispatch (totalRequests config - \<lfloor>(of_int (totalRequests config) :: rat) * (8 / 10)\<rfloor>)
                 \<lfloor>(of_int (totalRequests config) :: rat) * (8 / 10)\<rfloor> (concurrency config)] st)"
proof -
  let ?n = "totalRequests config"
  let ?s = "\<lfloor>(of_int ?n :: rat) * (8 / 10)\<rfloor>"
  have pos: "0 < ?n - ?s" using spike_normal_positive[OF assms] .
  have s: "0 \<le> ?s" "?s \<le> ?n" using floor_8_10[of ?n] assms by simp_all
  have 1: "extend_run e (?n - ?s) (?n - ?s) [Sleep (Finite 1000)] (extend_run e 0 (?n - ?s) [Dispatch 0 (?n - ?s) \<lfloor>(of_int (concurrency config) :: rat) * (3 / 10)\<rfloor>] st)
     = extend_run e 0 (?n - ?s) ([Dispatch 0 (?n - ?s) \<lfloor>(of_int (concurrency config) :: rat) * (3 / 10)\<rfloor>] @ [Sleep (Finite 1000)]) st"
    using s by (intro extend_extend) simp_all
  show ?thesis
    using pos s
    by (simp add: executeSpikePattern_def Let_def dispatch_extend sleep_extend[of _ _ e "?n - ?s"]
        extend_extend)
qed

lemma executeWavePattern_eq:
  assumes "0 \<le> totalRequests config"
  shows "executeWavePattern e config st =
     Some (extend_run e 0 (totalRequests config)
       [Dispatch 0 (totalRequests config div 3) (concurrency config),
        Sleep (Finite 2000),
        Dispatch (totalRequests config div 3) (totalRequests config div 3) (concurrency config),
        Sleep (Finite 2000),
        Dispatch (2 * (totalRequests config div 3))
                 (totalRequests config - 2 * (totalRequests config div 3)) (concurrency config)] st)"
proof -
  let ?n = "totalRequests config"
  let ?w = "?n div 3"
  have fl: "\<lfloor>(of_int ?n :: rat) / of_int 3\<rfloor> = ?w" by (rule floor_divide_of_int_eq)
  have w: "0 \<le> ?w" "2 * ?w \<le> ?n" "?w \<le> 2 * ?w" using assms by auto
  let ?c = "concurrency config"
  have 1: "waveLoop e config 3 ?w 3 s = Some s" for s by (subst waveLoop.simps) simp
  have 2: "waveLoop e config 3 ?w 2 s = Some (extend_run e (2 * ?w) (2 * ?w + (?n - 2 * ?w)) [Dispatch (2 * ?w) (?n - 2 * ?w) ?c] s)" for s
    by (subst waveLoop.simps) (simp add: Let_def dispatch_extend 1)
  have 3: "waveLoop e config 3 ?w 1 s = Some (extend_run e (2 * ?w) (2 * ?w + (?n - 2 * ?w)) [Dispatch (2 * ?w) (?n - 2 * ?w) ?c]
       (sleep (Finite 2000) (extend_run e ?w (?w + ?w) [Dispatch ?w ?w ?c] s)))" for s
    by (subst waveLoop.simps) (simp add: Let_def dispatch_extend 2)
  have 4: "waveLoop e config 3 ?w 0 s = Some (extend_run e (2 * ?w) (2 * ?w + (?n - 2 * ?w)) [Dispatch (2 * ?w) (?n - 2 * ?w) ?c]
       (sleep (Finite 2000) (extend_run e ?w (?w + ?w) [Dispatch ?w ?w ?c]
          (sleep (Finite 2000) (extend_run e 0 (0 + ?w) [Dispatch 0 ?w ?c] s)))))" for s
    by (subst waveLoop.simps) (simp add: Let_def dispatch_extend 3)
  have a: "sleep (Finite 2000) (extend_run e 0 (0 + ?w) [Dispatch 0 ?w ?c] st)
        = extend_run e 0 ?w [Dispatch 0 ?w ?c, Sleep (Finite 2000)] st"
    using w by (simp add: sleep_extend[of _ _ e ?w] extend_extend)
  have b: "sleep (Finite 2000) (extend_run e ?w (?w + ?w) [Dispatch ?w ?w ?c] (extend_run e 0 ?w [Dispatch 0 ?w ?c, Sleep (Finite 2000)] st))
        = extend_run e 0 (2 * ?w) [Dispatch 0 ?w ?c, Sleep (Finite 2000), Dispatch ?w ?w ?c, Sleep (Finite 2000)] st"
    using w by (simp add: sleep_extend[of _ _ e "2 * ?w"] extend_extend)
  show ?thesis
    unfolding executeWavePattern_def Let_def fl 4 a b
    using w by (simp add: extend_extend)
qed

lemma ceiling_batches:
  assumes "0 < c" "0 < (n::int)"
  shows "\<lceil>(of_int n :: rat) / of_int (min c n)\<rceil> = \<lceil>(of_int n :: rat) / of_int c\<rceil>"
proof (cases "c \<le> n")
  case True
  then show ?thesis by (simp add: min_def)
next
  case False
  then have "n < c" by simp
  have "(of_int n :: rat) / of_int c \<le> 1" using assms \<open>n < c\<close> by simp
  moreover have "0 < (of_int n :: rat) / of_int c" using assms by simp
  ultimately have "\<lceil>(of_int n :: rat) / of_int c\<rceil> = 1" by (intro ceiling_unique) simp_all
  then show ?thesis using False assms by (simp add: min_def)
qed

lemma sustainedLoop_eq:
  assumes c: "0 < concurrency config" and n: "0 < totalRequests config"
    and b: "0 \<le> b" "b \<le> phase_count config"
  shows "sustainedLoop e config (min (concurrency config) (totalRequests config)) (phase_count config) b st
       = Some (extend_run e (min (b * min (concurrency config) (totalRequests config)) (totalRequests config))
                 (totalRequests config)
                 (concat (map (sustained_phase config) [b..phase_count config - 1])) st)"
  using b
proof (induction "nat (phase_count config - b)" arbitrary: b st)
  case 0
  let ?bs = "min (concurrency config) (totalRequests config)"
  have bs: "0 < ?bs" using c n by simp
  from 0 have eq: "b = phase_count config" by simp
  have "(of_int (totalRequests config) :: rat) / of_int ?bs \<le> of_int b"
    unfolding eq phase_count_def ceiling_batches[OF c n, symmetric] by (rule le_of_int_ceiling)
  then have "(of_int (totalRequests config) :: rat) \<le> of_int b * of_int ?bs"
    using bs by (simp add: pos_divide_le_eq)
  then have "(of_int (totalRequests config) :: rat) \<le> of_int (b * ?bs)" by simp
  then have ge: "totalRequests config \<le> b * ?bs" by (simp only: of_int_le_iff)
  have m: "min (b * ?bs) (totalRequests config) = totalRequests config" using ge by simp
  have "sustainedLoop e config ?bs (phase_count config) b st = Some st"
    using eq by (subst sustainedLoop.simps) simp
  then show ?case unfolding m using eq by (simp add: extend_nothing)
next
  case (Suc k)
  let ?bs = "min (concurrency config) (totalRequests config)"
  let ?N = "phase_count config"
  let ?T = "totalRequests config"
  have bs: "0 < ?bs" using c n by simp
  from Suc have lt: "b < ?N" by simp
  then have "of_int b < (of_int ?T :: rat) / of_int ?bs"
    unfolding phase_count_def ceiling_batches[OF c n, symmetric] by (simp add: less_ceiling_iff)
  then have "(of_int b :: rat) * of_int ?bs < of_int ?T" using bs by (simp add: pos_less_divide_eq)
  then have "(of_int (b * ?bs) :: rat) < of_int ?T" by simp
  then have rem: "b * ?bs < ?T" by (simp only: of_int_less_iff)
  have nonneg: "0 \<le> b * ?bs" using Suc.prems(1) bs by simp
  have mn: "min ?bs (?T - b * ?bs) = min (concurrency config) (?T - b * ?bs)" using nonneg by simp
  have nxt: "b * ?bs + min (concurrency config) (?T - b * ?bs) = min ((b + 1) * ?bs) ?T"
  proof (cases "concurrency config \<le> ?T")
    case True
    then have "?bs = concurrency config" by simp
    then show ?thesis by (simp add: algebra_simps)
  next
    case False
    then have e1: "?bs = ?T" by simp
    have "b = 0"
    proof (rule ccontr)
      assume "b \<noteq> 0"
      then have "1 \<le> b" using Suc.prems(1) by simp
      then have "1 * ?T \<le> b * ?T" using n by (intro mult_right_mono) simp_all
      then show False using rem e1 by simp
    qed
    then show ?thesis using False by simp
  qed
  have lo: "min (b * ?bs) ?T = b * ?bs" using rem by simp
  have ord: "b * ?bs \<le> min ((b + 1) * ?bs) ?T" "min ((b + 1) * ?bs) ?T \<le> ?T"
    using rem bs by (simp_all add: algebra_simps)
  have k: "k = nat (?N - (b + 1))" using Suc.hyps(2) by simp
  have b1: "0 \<le> b + 1" "b + 1 \<le> ?N" using Suc.prems(1) lt by simp_all
  note IH = Suc.hyps(1)[OF k b1]
  have up: "[b..?N - 1] = b # [b + 1..?N - 1]" using lt by (simp add: upto_rec1)
  have ph: "sustained_phase config b =
      Dispatch (b * ?bs) (min (concurrency config) (?T - b * ?bs)) (concurrency config)
      # (if truthy_num (delay config) \<and> b < ?N - 1
         then [Sleep (Finite (of_int (the (delay config))))] else [])"
    by (simp add: sustained_phase_def Let_def)
  show ?case
  proof (cases "truthy_num (delay config) \<and> b < ?N - 1")
    case True
    have "sustainedLoop e config ?bs ?N b st =
        sustainedLoop e config ?bs ?N (b + 1)
          (sleep (Finite (of_int (the (delay config))))
             (extend_run e (b * ?bs) (min ((b + 1) * ?bs) ?T)
                [Dispatch (b * ?bs) (min (concurrency config) (?T - b * ?bs)) (concurrency config)] st))"
      using lt
      by (subst sustainedLoop.simps) (simp add: Let_def dispatch_extend mn nxt if_P[OF True])
    also have "\<dots> = Some (extend_run e (min ((b + 1) * ?bs) ?T) ?T
                 (concat (map (sustained_phase config) [b + 1..?N - 1]))
          (extend_run e (b * ?bs) (min ((b + 1) * ?bs) ?T)
                ([Dispatch (b * ?bs) (min (concurrency config) (?T - b * ?bs)) (concurrency config)]
                 @ [Sleep (Finite (of_int (the (delay config))))]) st))"
      using ord by (simp add: IH sleep_extend[of _ _ e "min ((b + 1) * ?bs) ?T"] extend_extend)
    also have "\<dots> = Some (extend_run e (b * ?bs) ?T (concat (map (sustained_phase config) [b..?N - 1])) st)"
      using ord by (simp add: extend_extend up ph[unfolded if_P[OF True]])
    finally show ?thesis unfolding lo .
  next
    case False
    have "sustainedLoop e config ?bs ?N b st =
        sustainedLoop e config ?bs ?N (b + 1)
             (extend_run e (b * ?bs) (min ((b + 1) * ?bs) ?T)
                [Dispatch (b * ?bs) (min (concurrency config) (?T - b * ?bs)) (concurrency config)] st)"
      using lt
      by (subst sustainedLoop.simps) (simp add: Let_def dispatch_extend mn nxt if_not_P[OF False])
    also have "\<dots> = Some (extend_run e (min ((b + 1) * ?bs) ?T) ?T
                 (concat (map (sustained_phase config) [b + 1..?N - 1]))
          (extend_run e (b * ?bs) (min ((b + 1) * ?bs) ?T)
                [Dispatch (b * ?bs) (min (concurrency config) (?T - b * ?bs)) (concurrency config)] st))"
      by (simp add: IH)
    also have "\<dots> = Some (extend_run e (b * ?bs) ?T (concat (map (sustained_phase config) [b..?N - 1])) st)"
      using ord by (simp add: extend_extend up ph[unfolded if_not_P[OF False]])
    finally show ?thesis unfolding lo .
  qed
qed

lemma executeSustainedPattern_eq:
  assumes c: "0 < concurrency config" and n: "0 < totalRequests config"
  shows "executeSustainedPattern e config st =
     Some (extend_run e 0 (totalRequests config)
             (concat (map (sustained_phase config) [0..phase_count config - 1])) st)"
proof -
  have "(0::rat) \<le> of_int (totalRequests config) / of_int (concurrency config)"
    using c n by simp
  then have pc: "0 \<le> phase_count config"
    unfolding phase_count_def by (simp only: zero_le_ceiling)
  have bs: "min (concurrency config) (totalRequests config) \<noteq> 0" using c n by simp
  have m: "min (0 * min (concurrency config) (totalRequests config)) (totalRequests config) = 0"
    using n by simp
  show ?thesis
    using sustainedLoop_eq[OF c n order_refl pc, of e st] bs
    unfolding m
    by (simp add: executeSustainedPattern_def Let_def ceiling_batches[OF c n] phase_count_def)
qed

lemma rampUpLoop_total:
  "0 \<le> stp \<Longrightarrow> 0 < cur \<Longrightarrow> cur \<le> endC \<Longrightarrow> 0 \<le> idx \<Longrightarrow> idx \<le> totalReq \<Longrightarrow>
     rampUpLoop e totalReq endC stp pause cur idx st
       = Some (extend_run e idx totalReq (rampUp_plan totalReq endC stp pause cur idx) st)"
proof (induction totalReq endC stp pause cur idx arbitrary: st rule: rampUp_plan.induct)
  case (1 totalReq endC stp pause cur idx)
  show ?case
  proof (cases "idx < totalReq")
    case False
    then have eq: "idx = totalReq" using "1.prems" by simp
    have "rampUpLoop e totalReq endC stp pause cur idx st = Some st"
      using False by (subst rampUpLoop.simps) simp
    moreover have "rampUp_plan totalReq endC stp pause cur idx = []"
      using False by (subst rampUp_plan.simps) simp
    ultimately show ?thesis using eq by (simp add: extend_nothing)
  next
    case True
    let ?k = "min cur (totalReq - idx)"
    have k: "0 < ?k" "idx + ?k \<le> totalReq" "idx \<le> idx + ?k" using True "1.prems" by simp_all
    have g: "0 < cur \<and> idx < totalReq" using True "1.prems" by simp
    show ?thesis
    proof (cases "cur < endC")
      case lt: True
      let ?c' = "min (cur + stp) endC"
      have c': "0 < ?c'" "?c' \<le> endC" using lt "1.prems" by simp_all
      note IH = "1.IH"(1)[OF g lt "1.prems"(1) c' _ k(2)]
      have step1: "rampUpLoop e totalReq endC stp pause cur idx st
          = rampUpLoop e totalReq endC stp pause ?c' (idx + ?k)
              (sleep pause (extend_run e idx (idx + ?k) [Dispatch idx ?k cur] st))"
        using g lt "1.prems" by (subst rampUpLoop.simps) (simp add: Let_def dispatch_extend)
      have plan: "rampUp_plan totalReq endC stp pause cur idx
          = Dispatch idx ?k cur # Sleep pause # rampUp_plan totalReq endC stp pause ?c' (idx + ?k)"
        using g lt by (subst rampUp_plan.simps) simp
      have "0 \<le> idx + ?k" using k "1.prems" by simp
      from IH[OF this] show ?thesis
        unfolding step1 plan using k
        by (simp add: sleep_extend[of _ _ e "idx + ?k"] extend_extend)
    next
      case ge: False
      note IH = "1.IH"(2)[OF g ge "1.prems"(1,2,3) _ k(2)]
      have step1: "rampUpLoop e totalReq endC stp pause cur idx st
          = rampUpLoop e totalReq endC stp pause cur (idx + ?k)
              (extend_run e idx (idx + ?k) [Dispatch idx ?k cur] st)"
        using g ge "1.prems" by (subst rampUpLoop.simps) (simp add: Let_def dispatch_extend)
      have plan: "rampUp_plan totalReq endC stp pause cur idx
          = Dispatch idx ?k cur # rampUp_plan totalReq endC stp pause cur (idx + ?k)"
        using g ge by (subst rampUp_plan.simps) simp
      have "0 \<le> idx + ?k" using k "1.prems" by simp
      from IH[OF this] show ?thesis
        unfolding step1 plan using k by (simp add: extend_extend)
    qed
  qed
qed

lemma rampUpLoop_partial:
  assumes "rampUpLoop e totalReq endC stp pause cur idx st = Some y"
  shows "\<not> doomed totalReq endC stp cur idx \<and>
         (on_track totalReq endC cur idx \<longrightarrow> (\<exists>evs. y = extend_run e idx totalReq evs st))"
proof (rule rampUpLoop.raw_induct[where P = "\<lambda>e totalReq endC stp pause cur idx st y.
          \<not> doomed totalReq endC stp cur idx \<and>
          (on_track totalReq endC cur idx \<longrightarrow> (\<exists>evs. y = extend_run e idx totalReq evs st))", OF _ assms])
  fix f :: "env \<Rightarrow> int \<Rightarrow> int \<Rightarrow> int \<Rightarrow> millis \<Rightarrow> int \<Rightarrow> int \<Rightarrow> RunState \<Rightarrow> RunState option"
  fix e T E s sd c i st y
  assume IH: "\<And>e T E s sd c i st y. f e T E s sd c i st = Some y \<Longrightarrow>
          \<not> doomed T E s c i \<and> (on_track T E c i \<longrightarrow> (\<exists>evs. y = extend_run e i T evs st))"
  assume body: "(if c \<le> E \<and> i < T
      then let requestsToSend = min c (T - i)
           in Option.bind (dispatch e i requestsToSend c st)
               (\<lambda>st1. if c < E
                      then f e T E s sd (min (c + s) E) (i + requestsToSend) (sleep sd st1)
                      else f e T E s sd c (i + requestsToSend) st1)
      else Some st) = Some y"
  let ?k = "min c (T - i)"
  let ?st1 = "extend_run e i (i + ?k) [Dispatch i ?k c] st"
  have notdoomed: "\<not> doomed T E s c i"
  proof
    assume d: "doomed T E s c i"
    then have g: "c \<le> E \<and> i < T" and k: "?k \<le> 0" and neg: "s < 0" "c \<le> 0"
      by (auto simp: doomed_def)
    show False
    proof (cases "c < E")
      case True
      from body g True have "f e T E s sd (min (c + s) E) (i + ?k) (sleep sd ?st1) = Some y"
        by (simp add: Let_def dispatch_extend)
      from IH[OF this] have "\<not> doomed T E s (min (c + s) E) (i + ?k)" by simp
      then show False using d k by (auto simp: doomed_def)
    next
      case False
      from body g False have "f e T E s sd c (i + ?k) ?st1 = Some y"
        by (simp add: Let_def dispatch_extend)
      from IH[OF this] have "\<not> doomed T E s c (i + ?k)" by simp
      then show False using d k by (auto simp: doomed_def)
    qed
  qed
  have track: "\<exists>evs. y = extend_run e i T evs st" if t: "on_track T E c i"
  proof (cases "i < T")
    case False
    then have "i = T" using t by (simp add: on_track_def)
    moreover have "y = st" using body False by simp
    ultimately show ?thesis using extend_nothing[of e T st] by metis
  next
    case True
    then have c: "0 < c" "c \<le> E" "0 \<le> i" using t by (auto simp: on_track_def)
    have k: "0 < ?k" "i + ?k \<le> T" "i \<le> i + ?k" using True c by simp_all
    show ?thesis
    proof (cases "c < E")
      case lt: True
      let ?c' = "min (c + s) E"
      from body True c lt have r: "f e T E s sd ?c' (i + ?k) (sleep sd ?st1) = Some y"
        by (simp add: Let_def dispatch_extend)
      from IH[OF r] have nd: "\<not> doomed T E s ?c' (i + ?k)"
        and tr: "on_track T E ?c' (i + ?k) \<longrightarrow> (\<exists>evs. y = extend_run e (i + ?k) T evs (sleep sd ?st1))"
        by simp_all
      have "on_track T E ?c' (i + ?k)"
      proof (cases "0 < ?c' \<or> i + ?k = T")
        case True
        then show ?thesis using k c by (auto simp: on_track_def)
      next
        case False
        then have "?c' \<le> 0" "i + ?k < T" using k by auto
        moreover have "s < 0" using \<open>?c' \<le> 0\<close> c by (auto simp: min_def split: if_splits)
        ultimately have "doomed T E s ?c' (i + ?k)" by (simp add: doomed_def)
        then show ?thesis using nd by simp
      qed
      with tr obtain evs where "y = extend_run e (i + ?k) T evs (sleep sd ?st1)" by blast
      then have "y = extend_run e i T ([Dispatch i ?k c] @ [Sleep sd] @ evs) st"
        using k by (simp add: sleep_extend[of _ _ e "i + ?k"] extend_extend)
      then show ?thesis by blast
    next
      case ge: False
      from body True c ge have r: "f e T E s sd c (i + ?k) ?st1 = Some y"
        by (simp add: Let_def dispatch_extend)
      from IH[OF r] have tr: "on_track T E c (i + ?k) \<longrightarrow> (\<exists>evs. y = extend_run e (i + ?k) T evs ?st1)"
        by simp
      have "on_track T E c (i + ?k)" using k c by (auto simp: on_track_def)
      with tr obtain evs where "y = extend_run e (i + ?k) T evs ?st1" by blast
      then have "y = extend_run e i T ([Dispatch i ?k c] @ evs) st"
        using k by (simp add: extend_extend)
      then show ?thesis by blast
    qed
  qed
  show "\<not> doomed T E s c i \<and> (on_track T E c i \<longrightarrow> (\<exists>evs. y = extend_run e i T evs st))"
    using notdoomed track by blast
qed

lemma rampUpLoop_doomed:
  "doomed totalReq endC stp cur idx \<Longrightarrow> rampUpLoop e totalReq endC stp pause cur idx st = None"
  using rampUpLoop_partial[of e totalReq endC stp pause cur idx st]
  by (cases "rampUpLoop e totalReq endC stp pause cur idx st") auto


lemma validateRampUpConfig_iff: "(validateRampUpConfig r = Inr ()) = spec_rampUp_valid r"
  by (auto simp: validateRampUpConfig_def spec_rampUp_valid_def)

lemma executeRampUpPattern_accepted:
  assumes "rampUp config = Some r" "validateRampUpConfig r = Inr ()"
  shows "executeRampUpPattern e config st =
     map_option Inr
       (rampUpLoop e (totalRequests config) (endConcurrency r) (step_of r)
          (stepDuration (rampUpTime r) (startConcurrency r) (endConcurrency r) (step_of r))
          (startConcurrency r) 0 st)"
  using assms by (simp add: executeRampUpPattern_def step_of_def Let_def)

lemma executeRampUpPattern_eq:
  assumes "rampUp config = Some r" "validateRampUpConfig r = Inr ()"
    and "0 \<le> totalRequests config" "0 \<le> step_of r"
  shows "executeRampUpPattern e config st =
     Some (Inr (extend_run e 0 (totalRequests config)
        (rampUp_plan (totalRequests config) (endConcurrency r) (step_of r)
           (stepDuration (rampUpTime r) (startConcurrency r) (endConcurrency r) (step_of r))
           (startConcurrency r) 0) st))"
proof -
  have v: "0 < startConcurrency r" "startConcurrency r \<le> endConcurrency r"
    using assms(2) by (simp_all add: validateRampUpConfig_iff spec_rampUp_valid_def)
  show ?thesis
    unfolding executeRampUpPattern_accepted[OF assms(1,2)]
    using rampUpLoop_total[OF assms(4) v order_refl assms(3)] by simp
qed

lemma executeRampUpPattern_returned:
  assumes "rampUp config = Some r" "validateRampUpConfig r = Inr ()"
    and "0 \<le> totalRequests config"
  shows "executeRampUpPattern e config st = None \<or>
         (\<exists>evs. executeRampUpPattern e config st
                  = Some (Inr (extend_run e 0 (totalRequests config) evs st)))"
proof (cases "rampUpLoop e (totalRequests config) (endConcurrency r) (step_of r)
          (stepDuration (rampUpTime r) (startConcurrency r) (endConcurrency r) (step_of r))
          (startConcurrency r) 0 st")
  case None
  then show ?thesis by (simp add: executeRampUpPattern_accepted[OF assms(1,2)])
next
  case (Some y)
  have "on_track (totalRequests config) (endConcurrency r) (startConcurrency r) 0"
    using assms(2,3) by (simp add: on_track_def validateRampUpConfig_iff spec_rampUp_valid_def)
  with rampUpLoop_partial[OF Some] obtain evs
    where "y = extend_run e 0 (totalRequests config) evs st" by blast
  then have "executeRampUpPattern e config st
      = Some (Inr (extend_run e 0 (totalRequests config) evs st))"
    using Some by (simp add: executeRampUpPattern_accepted[OF assms(1,2)])
  then show ?thesis by blast
qed

lemma phases_append: "phases (xs @ ys) = phases xs @ phases ys"
  by (induction xs rule: phases.induct) simp_all

lemma rampUp_plan_dispatched:
  "0 \<le> stp \<Longrightarrow> 0 < cur \<Longrightarrow> cur \<le> endC \<Longrightarrow> idx \<le> totalReq \<Longrightarrow>
   sum_list (map (\<lambda>(s, c, k). c) (phases (rampUp_plan totalReq endC stp pause cur idx)))
     = totalReq - idx"
proof (induction totalReq endC stp pause cur idx rule: rampUp_plan.induct)
  case (1 totalReq endC stp pause cur idx)
  show ?case
  proof (cases "idx < totalReq")
    case False
    then show ?thesis using "1.prems" by (subst rampUp_plan.simps) simp
  next
    case True
    let ?k = "min cur (totalReq - idx)"
    have g: "0 < cur \<and> idx < totalReq" using True "1.prems" by simp
    have k: "idx + ?k \<le> totalReq" using True "1.prems" by simp
    show ?thesis
    proof (cases "cur < endC")
      case lt: True
      have c': "0 < min (cur + stp) endC" "min (cur + stp) endC \<le> endC"
        using lt "1.prems" by simp_all
      from "1.IH"(1)[OF g lt "1.prems"(1) c' k] show ?thesis
        using g lt by (subst rampUp_plan.simps) simp
    next
      case ge: False
      from "1.IH"(2)[OF g ge "1.prems"(1,2,3) k] show ?thesis
        using g ge by (subst rampUp_plan.simps) simp
    qed
  qed
qed

lemma results_extend_run [simp]:
  "results (extend_run e lo hi evs st) = results st @ map (request_of e) [lo..hi - 1]"
  by (simp add: extend_run_def)

lemma trace_extend_run [simp]: "trace (extend_run e lo hi evs st) = trace st @ evs"
  by (simp add: extend_run_def)

lemma constructed:
  assumes "new_StressTester config = Inr t"
  shows "t = config" and "url t \<noteq> []" and "0 < concurrency t" and "0 < totalRequests t"
  using assms
  by (auto simp: new_StressTester_def validateConfig_def split: if_splits sum.splits)

lemma base_config_fields:
  "url base_config = ''http://localhost:3000''" "concurrency base_config = 10"
  "totalRequests base_config = 100" "duration base_config = None" "delay base_config = None"
  "timeout base_config = Some 30000" "pattern base_config = None" "rampUp base_config = None"
  by (simp_all add: base_config_def)

lemma initializeTest_fields: "results initializeTest = []" "trace initializeTest = []"
  by (simp_all add: initializeTest_def)

text \<open>
  C2 (as amended). For every configuration with the spike pattern that the constructor
  accepts, the run has exactly two phases. The first dispatches the smaller share,
  \<open>totalRequests - floor(totalRequests * 0.8)\<close> requests (at least one), at concurrency
  \<open>floor(concurrency * 0.3)\<close>; then comes the pause of 1000; the second dispatches the
  remaining \<open>floor(totalRequests * 0.8)\<close> requests at the full concurrency. The results
  accumulated are those of the first phase, the requests
  \<open>0, ..., totalRequests - floor(totalRequests * 0.8) - 1\<close>, followed by those of the
  second, the requests up to \<open>totalRequests - 1\<close>. For \<open>totalRequests = 100\<close> the first
  phase has the 20 requests \<open>0, ..., 19\<close> and the second the 80 requests \<open>20, ..., 99\<close>.
\<close>

theorem spike_phases:
  assumes "new_StressTester config = Inr t" and "pattern t = Some Spike"
  shows "\<exists>st'. executePattern e t st = Some (Inr st') \<and>
           trace st' = trace st @
             [Dispatch 0 (totalRequests t - \<lfloor>(of_int (totalRequests t) :: rat) * (8 / 10)\<rfloor>)
                         \<lfloor>(of_int (concurrency t) :: rat) * (3 / 10)\<rfloor>,
              Sleep (Finite 1000),
              Dispatch (totalRequests t - \<lfloor>(of_int (totalRequests t) :: rat) * (8 / 10)\<rfloor>)
                       \<lfloor>(of_int (totalRequests t) :: rat) * (8 / 10)\<rfloor> (concurrency t)] \<and>
           results st' = results st @
             map (request_of e)
               [0..totalRequests t - \<lfloor>(of_int (totalRequests t) :: rat) * (8 / 10)\<rfloor> - 1] @
             map (request_of e)
               [totalRequests t - \<lfloor>(of_int (totalRequests t) :: rat) * (8 / 10)\<rfloor>..totalRequests t - 1] \<and>
           0 < totalRequests t - \<lfloor>(of_int (totalRequests t) :: rat) * (8 / 10)\<rfloor> \<and>
           (totalRequests t = 100 \<longrightarrow>
              phases (trace st') = phases (trace st) @
                [(0, 20, \<lfloor>(of_int (concurrency t) :: rat) * (3 / 10)\<rfloor>), (20, 80, concurrency t)] \<and>
              results st' = results st @ map (request_of e) [0..19] @ map (request_of e) [20..99])"
proof -
  let ?n = "totalRequests t"
  let ?a = "?n - \<lfloor>(of_int ?n :: rat) * (8 / 10)\<rfloor>"
  have n: "0 < ?n" using constructed(4)[OF assms(1)] .
  have ep: "executePattern e t st = map_option Inr (executeSpikePattern e t st)"
    using assms(2) by (simp add: executePattern_def)
  have a: "0 < ?a" using spike_normal_positive[OF n] .
  have le: "?a \<le> ?n" using floor_8_10[of ?n] n by simp
  have split: "[0..?n - 1] = [0..?a - 1] @ [?a..?n - 1]"
    using upto_append[of 0 ?a "?n - 1"] a le by simp
  have res: "map (request_of e) [0..?n - 1]
             = map (request_of e) [0..?a - 1] @ map (request_of e) [?a..?n - 1]"
    unfolding split by simp
  have hundred: "?a = 20" if "?n = 100" using that by simp
  show ?thesis
    using a res hundred
    by (auto simp add: ep executeSpikePattern_eq[OF n] phases_append)
qed

theorem spike_phases_witness:
  "\<exists>st'. executePattern ok_env (base_config\<lparr>pattern := Some Spike\<rparr>) initializeTest
           = Some (Inr st') \<and>
         trace st' = [Dispatch 0 20 3, Sleep (Finite 1000), Dispatch 20 80 10] \<and>
         results st' = map (request_of ok_env) [0..19] @ map (request_of ok_env) [20..99]"
proof -
  have c: "new_StressTester (base_config\<lparr>pattern := Some Spike\<rparr>)
           = Inr (base_config\<lparr>pattern := Some Spike\<rparr>)"
    by (simp add: new_StressTester_def validateConfig_def base_config_fields)
  have p: "pattern (base_config\<lparr>pattern := Some Spike\<rparr>) = Some Spike" by simp
  from spike_phases[OF c p, of ok_env initializeTest]
  obtain st' where st':
    "executePattern ok_env (base_config\<lparr>pattern := Some Spike\<rparr>) initializeTest = Some (Inr st')"
    "trace st' = trace initializeTest @
       [Dispatch 0 (totalRequests (base_config\<lparr>pattern := Some Spike\<rparr>)
            - \<lfloor>(of_int (totalRequests (base_config\<lparr>pattern := Some Spike\<rparr>)) :: rat) * (8 / 10)\<rfloor>)
          \<lfloor>(of_int (concurrency (base_config\<lparr>pattern := Some Spike\<rparr>)) :: rat) * (3 / 10)\<rfloor>,
        Sleep (Finite 1000),
        Dispatch (totalRequests (base_config\<lparr>pattern := Some Spike\<rparr>)
            - \<lfloor>(of_int (totalRequests (base_config\<lparr>pattern := Some Spike\<rparr>)) :: rat) * (8 / 10)\<rfloor>)
          \<lfloor>(of_int (totalRequests (base_config\<lparr>pattern := Some Spike\<rparr>)) :: rat) * (8 / 10)\<rfloor>
          (concurrency (base_config\<lparr>pattern := Some Spike\<rparr>))]"
    "totalRequests (base_config\<lparr>pattern := Some Spike\<rparr>) = 100 \<longrightarrow>
       results st' = results initializeTest @
         map (request_of ok_env) [0..19] @ map (request_of ok_env) [20..99]"
    by blast
  have "trace st' = [Dispatch 0 20 3, Sleep (Finite 1000), Dispatch 20 80 10]"
    using st'(2) by (simp add: base_config_fields initializeTest_fields)
  moreover have "results st' = map (request_of ok_env) [0..19] @ map (request_of ok_env) [20..99]"
    using st'(3) by (simp add: base_config_fields initializeTest_fields)
  ultimately show ?thesis using st'(1) by blast
qed

text \<open>
  The claim as written puts the 80 requests first: with 100 requests and concurrency 10
  the first phase has 20 requests at concurrency 3 and the second has 80 at concurrency 10.
\<close>

theorem spike_first_phase_counterexample:
  "phases (trace_of (returned
     (executePattern ok_env (base_config\<lparr>pattern := Some Spike\<rparr>) initializeTest)))
     = [(0, 20, 3), (20, 80, 10)]"
proof -
  have n: "0 < totalRequests (base_config\<lparr>pattern := Some Spike\<rparr>)"
    by (simp add: base_config_fields)
  show ?thesis
    by (simp add: executePattern_def executeSpikePattern_eq[OF n] base_config_fields
        initializeTest_fields)
qed

lemma phases_sustained:
  "a \<le> b + 1 \<Longrightarrow> length (phases (concat (map (sustained_phase t) [a..b]))) = nat (b - a + 1)"
proof (induction "nat (b - a + 1)" arbitrary: a)
  case 0
  then show ?case by simp
next
  case (Suc n)
  then have le: "a \<le> b" by simp
  have n: "n = nat (b - (a + 1) + 1)" using Suc.hyps(2) by simp
  have up: "[a..b] = a # [a + 1..b]" using le by (simp add: upto_rec1)
  have one: "length (phases (sustained_phase t a)) = 1" by (simp add: sustained_phase_def Let_def)
  from Suc.hyps(1)[OF n] le have "length (phases (concat (map (sustained_phase t) [a + 1..b]))) = nat (b - a)"
    by simp
  then show ?case using le one by (simp add: up phases_append)
qed

lemma phase_count_positive:
  assumes "0 < concurrency t" "0 < totalRequests t"
  shows "1 \<le> phase_count t"
proof -
  have "(0::rat) < of_int (totalRequests t) / of_int (concurrency t)" using assms by simp
  then show ?thesis unfolding phase_count_def by (simp only: one_le_ceiling)
qed

lemma trace_requests_append:
  "trace_requests e (xs @ ys) = trace_requests e xs @ trace_requests e ys"
  by (induction e xs rule: trace_requests.induct) simp_all

lemma trace_requests_sustained:
  "trace_requests e (concat (map (sustained_phase t) ks)) =
     concat (map (\<lambda>k. map (request_of e)
        [k * min (concurrency t) (totalRequests t)
         ..k * min (concurrency t) (totalRequests t)
           + min (concurrency t) (totalRequests t - k * min (concurrency t) (totalRequests t)) - 1])
       ks)"
  by (induction ks) (simp_all add: trace_requests_append sustained_phase_def Let_def)

lemma sustainedLoop_accounts:
  "sustainedLoop e config bs n b st = Some st' \<Longrightarrow>
     \<exists>evs. trace st' = trace st @ evs \<and> results st' = results st @ trace_requests e evs"
proof (induction "nat (n - b)" arbitrary: b st)
  case 0
  then have "\<not> b < n" by simp
  then have "sustainedLoop e config bs n b st = Some st" by (subst sustainedLoop.simps) simp
  then have "st' = st" using "0.prems" by simp
  then show ?case by simp
next
  case (Suc m)
  let ?s = "b * bs"
  let ?c = "min bs (totalRequests config - ?s)"
  let ?st1 = "st\<lparr>results := results st @ map (request_of e) [?s..?s + ?c - 1],
                  trace := trace st @ [Dispatch ?s ?c (concurrency config)]\<rparr>"
  let ?st2 = "if truthy_num (delay config) \<and> b < n - 1
              then sleep (Finite (of_int (the (delay config)))) ?st1 else ?st1"
  have lt: "b < n" using Suc.hyps(2) by simp
  have m: "m = nat (n - (b + 1))" using Suc.hyps(2) by simp
  have "sustainedLoop e config bs n b st = sustainedLoop e config bs n (b + 1) ?st2"
    using lt by (subst sustainedLoop.simps) (simp add: Let_def dispatch_eq)
  then have run: "sustainedLoop e config bs n (b + 1) ?st2 = Some st'"
    using Suc.prems by simp
  from Suc.hyps(1)[OF m run]
  obtain evs where evs: "trace st' = trace ?st2 @ evs"
      "results st' = results ?st2 @ trace_requests e evs"
    by blast
  show ?case
  proof (cases "truthy_num (delay config) \<and> b < n - 1")
    case True
    let ?all = "Dispatch ?s ?c (concurrency config)
                # Sleep (Finite (of_int (the (delay config)))) # evs"
    have "trace st' = trace st @ ?all" using evs(1) True by (simp add: sleep_def)
    moreover have "results st' = results st @ trace_requests e ?all"
      using evs(2) True by (simp add: sleep_def)
    ultimately show ?thesis by blast
  next
    case False
    let ?all = "Dispatch ?s ?c (concurrency config) # evs"
    have "trace st' = trace st @ ?all" using evs(1) False by simp
    moreover have "results st' = results st @ trace_requests e ?all"
      using evs(2) False by simp
    ultimately show ?thesis by blast
  qed
qed

text \<open>
  C8. For every configuration that the constructor accepts and whose pattern is sustained
  (named or by default), the pattern returns and its trace is the sequence of its phases
  \<open>0, ..., n - 1\<close> with \<open>n = ceil(totalRequests / concurrency)\<close>: phase \<open>k\<close> dispatches
  \<open>min(concurrency, remaining)\<close> requests, and the configured delay (when there is one
  and it is not 0) follows every phase but the last. The trace has exactly \<open>n\<close> phases
  and ends with the dispatch of the last one. The results accumulated are, phase after
  phase, those of the requests that the phase dispatches; together they are the results
  of the requests \<open>0, ..., totalRequests - 1\<close>.
\<close>

theorem sustained_phases:
  assumes "new_StressTester config = Inr t" and "pattern_of t = Sustained"
  shows "\<exists>st'. executePattern e t st = Some (Inr st') \<and>
           trace st' = trace st @ concat (map (sustained_phase t) [0..phase_count t - 1]) \<and>
           length (phases (concat (map (sustained_phase t) [0..phase_count t - 1])))
             = nat \<lceil>(of_int (totalRequests t) :: rat) / of_int (concurrency t)\<rceil> \<and>
           last (trace st') =
             Dispatch ((phase_count t - 1) * min (concurrency t) (totalRequests t))
               (min (concurrency t)
                  (totalRequests t - (phase_count t - 1) * min (concurrency t) (totalRequests t)))
               (concurrency t) \<and>
           results st' = results st @
             concat (map (\<lambda>k. map (request_of e)
                [k * min (concurrency t) (totalRequests t)
                 ..k * min (concurrency t) (totalRequests t)
                   + min (concurrency t)
                       (totalRequests t - k * min (concurrency t) (totalRequests t)) - 1])
               [0..phase_count t - 1]) \<and>
           results st' = results st @ map (request_of e) [0..totalRequests t - 1]"
proof -
  let ?plan = "concat (map (sustained_phase t) [0..phase_count t - 1])"
  let ?st' = "extend_run e 0 (totalRequests t) ?plan st"
  have ep: "executePattern e t st = map_option Inr (executeSustainedPattern e t st)"
    using assms(2) by (simp add: executePattern_def pattern_of_def)
  have c: "0 < concurrency t" and n: "0 < totalRequests t"
    using constructed(3,4)[OF assms(1)] by simp_all
  have pc: "1 \<le> phase_count t" using phase_count_positive[OF c n] .
  have len: "length (phases ?plan)
             = nat \<lceil>(of_int (totalRequests t) :: rat) / of_int (concurrency t)\<rceil>"
    using phases_sustained[of 0 "phase_count t - 1" t] pc by (simp add: phase_count_def)
  have up: "[0..phase_count t - 1] = [0..phase_count t - 1 - 1] @ [phase_count t - 1]"
    using pc by (intro upto_rec2) simp
  have lastp: "sustained_phase t (phase_count t - 1) =
      [Dispatch ((phase_count t - 1) * min (concurrency t) (totalRequests t))
               (min (concurrency t)
                  (totalRequests t - (phase_count t - 1) * min (concurrency t) (totalRequests t)))
               (concurrency t)]"
    by (simp add: sustained_phase_def Let_def)
  have l1: "last ?plan =
        Dispatch ((phase_count t - 1) * min (concurrency t) (totalRequests t))
               (min (concurrency t)
                  (totalRequests t - (phase_count t - 1) * min (concurrency t) (totalRequests t)))
               (concurrency t)"
    by (subst up) (simp add: lastp)
  have ne: "?plan \<noteq> []"
    by (subst up) (simp add: lastp)
  have eq: "executeSustainedPattern e t st = Some ?st'"
    by (rule executeSustainedPattern_eq[OF c n])
  have bs: "min (concurrency t) (totalRequests t) \<noteq> 0" using c n by simp
  from eq have "sustainedLoop e t (min (concurrency t) (totalRequests t))
        \<lceil>(of_int (totalRequests t) :: rat) / of_int (min (concurrency t) (totalRequests t))\<rceil> 0 st
      = Some ?st'"
    using bs by (simp add: executeSustainedPattern_def Let_def)
  from sustainedLoop_accounts[OF this]
  obtain evs where evs: "trace ?st' = trace st @ evs"
      "results ?st' = results st @ trace_requests e evs"
    by blast
  from evs(1) have "evs = ?plan" by simp
  then have byphase: "results ?st' = results st @ trace_requests e ?plan" using evs(2) by simp
  have a: "executePattern e t st = Some (Inr ?st')" using ep eq by simp
  have b: "trace ?st' = trace st @ ?plan" by simp
  have d: "last (trace ?st') =
        Dispatch ((phase_count t - 1) * min (concurrency t) (totalRequests t))
               (min (concurrency t)
                  (totalRequests t - (phase_count t - 1) * min (concurrency t) (totalRequests t)))
               (concurrency t)"
    using l1 ne by simp
  have f: "results ?st' = results st @ map (request_of e) [0..totalRequests t - 1]" by simp
  show ?thesis
    using a b len d byphase[unfolded trace_requests_sustained] f
    by (intro exI[of _ ?st'] conjI)
qed

theorem sustained_phases_witness:
  "\<exists>st'. executePattern ok_env (base_config\<lparr>totalRequests := 35, delay := Some 7\<rparr>) initializeTest
           = Some (Inr st') \<and>
         trace st' = [Dispatch 0 10 10, Sleep (Finite 7), Dispatch 10 10 10, Sleep (Finite 7),
                      Dispatch 20 10 10, Sleep (Finite 7), Dispatch 30 5 10] \<and>
         results st' = map (request_of ok_env) [0..9] @ map (request_of ok_env) [10..19] @
                       map (request_of ok_env) [20..29] @ map (request_of ok_env) [30..34]"
proof -
  let ?cfg = "base_config\<lparr>totalRequests := 35, delay := Some 7\<rparr>"
  have c: "new_StressTester ?cfg = Inr ?cfg"
    by (simp add: new_StressTester_def validateConfig_def base_config_fields)
  have p: "pattern_of ?cfg = Sustained" by (simp add: pattern_of_def base_config_fields)
  have pc: "phase_count ?cfg = 4"
    by (simp add: phase_count_def base_config_fields ceiling_eq_iff)
  have up: "[0..(3::int)] = [0, 1, 2, 3]" by (simp add: upto_rec1)
  from sustained_phases[OF c p, of ok_env initializeTest]
  obtain st' where st':
    "executePattern ok_env ?cfg initializeTest = Some (Inr st')"
    "trace st' = trace initializeTest @ concat (map (sustained_phase ?cfg) [0..phase_count ?cfg - 1])"
    "results st' = results initializeTest @
             concat (map (\<lambda>k. map (request_of ok_env)
                [k * min (concurrency ?cfg) (totalRequests ?cfg)
                 ..k * min (concurrency ?cfg) (totalRequests ?cfg)
                   + min (concurrency ?cfg)
                       (totalRequests ?cfg - k * min (concurrency ?cfg) (totalRequests ?cfg)) - 1])
               [0..phase_count ?cfg - 1])"
    by blast
  have "trace st' = [Dispatch 0 10 10, Sleep (Finite 7), Dispatch 10 10 10, Sleep (Finite 7),
                      Dispatch 20 10 10, Sleep (Finite 7), Dispatch 30 5 10]"
    unfolding st'(2) pc by (simp add: up sustained_phase_def pc base_config_fields initializeTest_fields)
  moreover have "results st' = map (request_of ok_env) [0..9] @ map (request_of ok_env) [10..19] @
                       map (request_of ok_env) [20..29] @ map (request_of ok_env) [30..34]"
    unfolding st'(3) pc by (simp add: up base_config_fields initializeTest_fields)
  ultimately show ?thesis using st'(1) by blast
qed

lemma stepDuration_positive_step:
  assumes "0 < stp" "startC < endC"
  shows "stepDuration rampTime startC endC stp
         = Finite (of_int rampTime / of_int \<lceil>(of_int (endC - startC) :: rat) / of_int stp\<rceil>)"
proof -
  have "(0::rat) < of_int (endC - startC) / of_int stp" using assms by simp
  then have "0 < \<lceil>(of_int (endC - startC) :: rat) / of_int stp\<rceil>" by (simp only: zero_less_ceiling)
  then have nz: "\<lceil>(of_int (endC - startC) :: rat) / of_int stp\<rceil> \<noteq> 0" by (rule less_imp_neq[THEN not_sym])
  have s: "stp \<noteq> 0" using assms(1) by simp
  show ?thesis unfolding stepDuration_def Let_def if_not_P[OF s] if_not_P[OF nz] ..
qed

lemma ramp_10_100_fields:
  "startConcurrency ramp_10_100 = 10" "endConcurrency ramp_10_100 = 100"
  "rampUpTime ramp_10_100 = 9000" "step ramp_10_100 = Some 10" "step_of ramp_10_100 = 10"
  "validateRampUpConfig ramp_10_100 = Inr ()"
  "stepDuration 9000 10 100 10 = Finite 1000"
  by (simp_all add: ramp_10_100_def step_of_def validateRampUpConfig_def stepDuration_def)

lemma rampUp_plan_550:
  "rampUp_plan 550 100 10 (Finite 1000) 10 0 =
     [Dispatch 0 10 10, Sleep (Finite 1000), Dispatch 10 20 20, Sleep (Finite 1000),
      Dispatch 30 30 30, Sleep (Finite 1000), Dispatch 60 40 40, Sleep (Finite 1000),
      Dispatch 100 50 50, Sleep (Finite 1000), Dispatch 150 60 60, Sleep (Finite 1000),
      Dispatch 210 70 70, Sleep (Finite 1000), Dispatch 280 80 80, Sleep (Finite 1000),
      Dispatch 360 90 90, Sleep (Finite 1000), Dispatch 450 100 100]"
  by (simp add: rampUp_plan.simps)

lemma rampUp_plan_1000:
  "rampUp_plan 1000 100 10 (Finite 1000) 10 0 =
     [Dispatch 0 10 10, Sleep (Finite 1000), Dispatch 10 20 20, Sleep (Finite 1000),
      Dispatch 30 30 30, Sleep (Finite 1000), Dispatch 60 40 40, Sleep (Finite 1000),
      Dispatch 100 50 50, Sleep (Finite 1000), Dispatch 150 60 60, Sleep (Finite 1000),
      Dispatch 210 70 70, Sleep (Finite 1000), Dispatch 280 80 80, Sleep (Finite 1000),
      Dispatch 360 90 90, Sleep (Finite 1000), Dispatch 450 100 100, Dispatch 550 100 100,
      Dispatch 650 100 100, Dispatch 750 100 100, Dispatch 850 100 100, Dispatch 950 50 100]"
  by (simp add: rampUp_plan.simps)

text \<open>
  C3 (as amended). For every configuration with the ramp-up pattern that the constructor
  accepts, with a ramp-up block that \<open>validateRampUpConfig\<close> accepts and a step that
  is not negative, the pattern returns and its trace is the ramp-up schedule: each plateau
  dispatches \<open>min(currentConcurrency, remaining)\<close> requests; below \<open>endConcurrency\<close> a
  pause follows the plateau and the concurrency rises by the step, capped at
  \<open>endConcurrency\<close>; at \<open>endConcurrency\<close> the plateau repeats without a pause. The
  scheduler stops exactly when \<open>totalRequests\<close> is exhausted: the counts of the plateaus
  add up to \<open>totalRequests\<close> and the results are those of the indices
  \<open>0, ..., totalRequests - 1\<close>. For a positive step the pause is
  \<open>rampUpTime / ceil((endConcurrency - startConcurrency) / step)\<close>. The witness is the
  ramp from 10 to 100 in steps of 10 over 9000 with 550 requests: ten plateaus
  \<open>10, 20, ..., 100\<close> with nine pauses of 1000 between them.
\<close>

theorem rampUp_schedule:
  assumes "new_StressTester config = Inr t" and "pattern t = Some RampUp"
    and "rampUp t = Some r" and "validateRampUpConfig r = Inr ()" and "0 \<le> step_of r"
  shows "\<exists>st'. executePattern e t st = Some (Inr st') \<and>
           trace st' = trace st @
             rampUp_plan (totalRequests t) (endConcurrency r) (step_of r)
               (stepDuration (rampUpTime r) (startConcurrency r) (endConcurrency r) (step_of r))
               (startConcurrency r) 0 \<and>
           results st' = results st @ map (request_of e) [0..totalRequests t - 1] \<and>
           sum_list (map (\<lambda>(s, c, k). c) (phases
             (rampUp_plan (totalRequests t) (endConcurrency r) (step_of r)
               (stepDuration (rampUpTime r) (startConcurrency r) (endConcurrency r) (step_of r))
               (startConcurrency r) 0))) = totalRequests t \<and>
           (0 < step_of r \<longrightarrow>
              stepDuration (rampUpTime r) (startConcurrency r) (endConcurrency r) (step_of r)
                = Finite (of_int (rampUpTime r)
                    / of_int \<lceil>(of_int (endConcurrency r - startConcurrency r) :: rat)
                                / of_int (step_of r)\<rceil>))"
proof -
  have n: "0 < totalRequests t" using constructed(4)[OF assms(1)] .
  have v: "0 < startConcurrency r" "startConcurrency r < endConcurrency r"
    using assms(4) by (simp_all add: validateRampUpConfig_iff spec_rampUp_valid_def)
  have ep: "executePattern e t st = executeRampUpPattern e t st"
    using assms(2) by (simp add: executePattern_def)
  have n0: "0 \<le> totalRequests t" using n by simp
  note eq = executeRampUpPattern_eq[OF assms(3,4) n0 assms(5), of e st]
  have sum: "sum_list (map (\<lambda>(s, c, k). c) (phases
             (rampUp_plan (totalRequests t) (endConcurrency r) (step_of r)
               (stepDuration (rampUpTime r) (startConcurrency r) (endConcurrency r) (step_of r))
               (startConcurrency r) 0))) = totalRequests t - 0"
    using v n by (intro rampUp_plan_dispatched[OF assms(5)]) simp_all
  show ?thesis
    using sum stepDuration_positive_step[OF _ v(2), of "step_of r" "rampUpTime r"]
    by (simp add: ep eq)
qed

theorem rampUp_schedule_witness:
  "\<exists>st'. executePattern ok_env
           (base_config\<lparr>totalRequests := 550, pattern := Some RampUp, rampUp := Some ramp_10_100\<rparr>)
           initializeTest = Some (Inr st') \<and>
         trace st' =
           [Dispatch 0 10 10, Sleep (Finite 1000), Dispatch 10 20 20, Sleep (Finite 1000),
            Dispatch 30 30 30, Sleep (Finite 1000), Dispatch 60 40 40, Sleep (Finite 1000),
            Dispatch 100 50 50, Sleep (Finite 1000), Dispatch 150 60 60, Sleep (Finite 1000),
            Dispatch 210 70 70, Sleep (Finite 1000), Dispatch 280 80 80, Sleep (Finite 1000),
            Dispatch 360 90 90, Sleep (Finite 1000), Dispatch 450 100 100]"
proof -
  let ?cfg = "base_config\<lparr>totalRequests := 550, pattern := Some RampUp, rampUp := Some ramp_10_100\<rparr>"
  have c: "new_StressTester ?cfg = Inr ?cfg"
    by (simp add: new_StressTester_def validateConfig_def base_config_fields)
  have p: "pattern ?cfg = Some RampUp" and r: "rampUp ?cfg = Some ramp_10_100" by simp_all
  have s: "0 \<le> step_of ramp_10_100" by (simp add: ramp_10_100_fields)
  show ?thesis
    using rampUp_schedule[OF c p r ramp_10_100_fields(6) s, of ok_env initializeTest]
    by (auto simp add: ramp_10_100_fields rampUp_plan_550 initializeTest_fields)
qed

text \<open>
  The claim as written lets the scheduler stop once the \<open>endConcurrency\<close> plateau has
  run, after 9 plateaus. With 1000 requests the same ramp runs 15 plateaus (start index,
  count, concurrency), six of them at concurrency 100.
\<close>

theorem rampUp_plateaus_counterexample:
  "phases (trace_of (returned
     (executePattern ok_env
        (base_config\<lparr>totalRequests := 1000, pattern := Some RampUp, rampUp := Some ramp_10_100\<rparr>)
        initializeTest)))
   = [(0, 10, 10), (10, 20, 20), (30, 30, 30), (60, 40, 40), (100, 50, 50), (150, 60, 60),
      (210, 70, 70), (280, 80, 80), (360, 90, 90), (450, 100, 100), (550, 100, 100),
      (650, 100, 100), (750, 100, 100), (850, 100, 100), (950, 50, 100)]"
proof -
  let ?cfg = "base_config\<lparr>totalRequests := 1000, pattern := Some RampUp, rampUp := Some ramp_10_100\<rparr>"
  have r: "rampUp ?cfg = Some ramp_10_100" by simp
  have n: "0 \<le> totalRequests ?cfg" by simp
  have s: "0 \<le> step_of ramp_10_100" by (simp add: ramp_10_100_fields)
  show ?thesis
    by (simp add: executePattern_def executeRampUpPattern_eq[OF r ramp_10_100_fields(6) n s]
        ramp_10_100_fields rampUp_plan_1000 initializeTest_fields)
qed

lemma indices_of_requests: "map index (map (request_of e) xs) = xs"
  by (induction xs) simp_all

lemma run_of_extend:
  assumes "executePattern e t initializeTest = Some (Inr (extend_run e 0 n evs initializeTest))"
  shows "\<exists>r. run e t = Some (Inr r) \<and> map index (requests r) = [0..n - 1] \<and>
             distinct (map index (requests r)) \<and> set (map index (requests r)) = {0..n - 1}"
proof -
  have "requests (finalizeTest e t (extend_run e 0 n evs initializeTest))
        = map (request_of e) [0..n - 1]"
    by (simp add: finalizeTest_def initializeTest_fields)
  then have "map index (requests (finalizeTest e t (extend_run e 0 n evs initializeTest))) = [0..n - 1]"
    by (simp only: indices_of_requests)
  moreover have "run e t = Some (Inr (finalizeTest e t (extend_run e 0 n evs initializeTest)))"
    using assms by (simp add: run_def)
  ultimately show ?thesis by (metis distinct_upto set_upto)
qed

text \<open>
  For every configuration that the constructor accepts (and, for the ramp-up pattern,
  whose ramp-up block \<open>validateRampUpConfig\<close> accepts), every pattern and every
  environment: either \<open>run\<close> returns and the indices of the returned results are the
  list \<open>0, 1, ..., totalRequests - 1\<close>, or the pattern is ramp-up with a negative step
  and \<open>run\<close> does not return.
\<close>

lemma run_returns_or_negative_step:
  assumes "new_StressTester config = Inr t" and "rampUp_accepted t"
  shows "(\<exists>r. run e t = Some (Inr r) \<and> map index (requests r) = [0..totalRequests t - 1] \<and>
              distinct (map index (requests r)) \<and>
              set (map index (requests r)) = {0..totalRequests t - 1})
         \<or> (run e t = None \<and> pattern t = Some RampUp \<and>
             (\<exists>r. rampUp t = Some r \<and> step_of r < 0))"
proof -
  have c: "0 < concurrency t" and n: "0 < totalRequests t"
    using constructed(3,4)[OF assms(1)] by simp_all
  have n0: "0 \<le> totalRequests t" using n by simp
  show ?thesis
  proof (cases "pattern_of t")
    case Burst
    then have "executePattern e t initializeTest = map_option Inr (executeBurstPattern e t initializeTest)"
      by (simp add: executePattern_def pattern_of_def)
    then show ?thesis using run_of_extend[of e t "totalRequests t"]
      by (simp add: executeBurstPattern_eq)
  next
    case Sustained
    then have "executePattern e t initializeTest = map_option Inr (executeSustainedPattern e t initializeTest)"
      by (simp add: executePattern_def pattern_of_def)
    then show ?thesis using run_of_extend[of e t "totalRequests t"]
      by (simp add: executeSustainedPattern_eq[OF c n])
  next
    case Wave
    then have "executePattern e t initializeTest = map_option Inr (executeWavePattern e t initializeTest)"
      by (simp add: executePattern_def pattern_of_def)
    then show ?thesis using run_of_extend[of e t "totalRequests t"]
      by (simp add: executeWavePattern_eq[OF n0])
  next
    case Spike
    then have "executePattern e t initializeTest = map_option Inr (executeSpikePattern e t initializeTest)"
      by (simp add: executePattern_def pattern_of_def)
    then show ?thesis using run_of_extend[of e t "totalRequests t"]
      by (simp add: executeSpikePattern_eq[OF n])
  next
    case RampUp
    then have p: "pattern t = Some RampUp"
      by (cases "pattern t") (simp_all add: pattern_of_def)
    have ep: "executePattern e t initializeTest = executeRampUpPattern e t initializeTest"
      using RampUp by (simp add: executePattern_def pattern_of_def)
    from assms(2) RampUp obtain r where r: "rampUp t = Some r" and v: "validateRampUpConfig r = Inr ()"
      by (cases "rampUp t") (simp_all add: rampUp_accepted_def)
    from executeRampUpPattern_returned[OF r v n0, of e initializeTest]
    show ?thesis
    proof
      assume none: "executeRampUpPattern e t initializeTest = None"
      have "step_of r < 0"
      proof (rule ccontr)
        assume "\<not> step_of r < 0"
        then have "0 \<le> step_of r" by simp
        from executeRampUpPattern_eq[OF r v n0 this, of e initializeTest] none show False by simp
      qed
      moreover have "run e t = None" using none ep by (simp add: run_def)
      ultimately show ?thesis using p r by blast
    next
      assume "\<exists>evs. executeRampUpPattern e t initializeTest
                = Some (Inr (extend_run e 0 (totalRequests t) evs initializeTest))"
      then obtain evs where "executePattern e t initializeTest
                = Some (Inr (extend_run e 0 (totalRequests t) evs initializeTest))"
        using ep by auto
      from run_of_extend[OF this] show ?thesis by blast
    qed
  qed
qed

text \<open>
  With a step that is not negative (and for the four other patterns) \<open>run\<close> returns,
  and the indices are \<open>0, 1, ..., totalRequests - 1\<close>, each once.
\<close>

lemma run_returns_all_indices:
  assumes "new_StressTester config = Inr t" and "rampUp_accepted t"
    and "\<And>r. pattern t = Some RampUp \<Longrightarrow> rampUp t = Some r \<Longrightarrow> 0 \<le> step_of r"
  shows "\<exists>r. run e t = Some (Inr r) \<and> map index (requests r) = [0..totalRequests t - 1] \<and>
             distinct (map index (requests r)) \<and>
             set (map index (requests r)) = {0..totalRequests t - 1}"
proof -
  have "\<not> (run e t = None \<and> pattern t = Some RampUp \<and> (\<exists>r. rampUp t = Some r \<and> step_of r < 0))"
    using assms(3) by fastforce
  then show ?thesis using run_returns_or_negative_step[OF assms(1,2), of e] by blast
qed

lemma run_wave_7:
  "\<exists>r. run ok_env (base_config\<lparr>totalRequests := 7, pattern := Some Wave\<rparr>) = Some (Inr r) \<and>
       map index (requests r) = [0, 1, 2, 3, 4, 5, 6]"
proof -
  let ?cfg = "base_config\<lparr>totalRequests := 7, pattern := Some Wave\<rparr>"
  have c: "new_StressTester ?cfg = Inr ?cfg"
    by (simp add: new_StressTester_def validateConfig_def base_config_fields)
  have a: "rampUp_accepted ?cfg" by (simp add: rampUp_accepted_def pattern_of_def)
  have up: "[0..(6::int)] = [0, 1, 2, 3, 4, 5, 6]" by (simp add: upto_rec1)
  show ?thesis
    using run_returns_all_indices[OF c a, of ok_env] by (auto simp add: up)
qed

text \<open>
  C1 (a defect of the code). The claim does not hold of the code for the ramp-up pattern
  with a negative step. The configuration with 10 requests and the ramp-up block
  \<open>startConcurrency = 1\<close>, \<open>endConcurrency = 5\<close>, \<open>rampUpTime = 1000\<close>, \<open>step = -1\<close> is
  valid as the specification words validity, the constructor accepts it and
  \<open>validateRampUpConfig\<close> accepts its block (it never looks at the step). The first
  plateau dispatches request 0 at concurrency 1; the concurrency then falls to 0, every
  later plateau dispatches \<open>min(currentConcurrency, remaining) \<le> 0\<close> requests, the
  request index no longer rises, and the loop never ends: in every environment \<open>run\<close>
  returns nothing, where the claim promises the results of the indices \<open>0, ..., 9\<close>.
\<close>

theorem run_negative_step_never_returns:
  "spec_valid (base_config\<lparr>totalRequests := 10, pattern := Some RampUp,
       rampUp := Some \<lparr>startConcurrency = 1, endConcurrency = 5, rampUpTime = 1000,
                        step = Some (- 1)\<rparr>\<rparr>) \<and>
   new_StressTester (base_config\<lparr>totalRequests := 10, pattern := Some RampUp,
       rampUp := Some \<lparr>startConcurrency = 1, endConcurrency = 5, rampUpTime = 1000,
                        step = Some (- 1)\<rparr>\<rparr>)
     = Inr (base_config\<lparr>totalRequests := 10, pattern := Some RampUp,
       rampUp := Some \<lparr>startConcurrency = 1, endConcurrency = 5, rampUpTime = 1000,
                        step = Some (- 1)\<rparr>\<rparr>) \<and>
   validateRampUpConfig \<lparr>startConcurrency = 1, endConcurrency = 5, rampUpTime = 1000,
                         step = Some (- 1)\<rparr> = Inr () \<and>
   run e (base_config\<lparr>totalRequests := 10, pattern := Some RampUp,
       rampUp := Some \<lparr>startConcurrency = 1, endConcurrency = 5, rampUpTime = 1000,
                        step = Some (- 1)\<rparr>\<rparr>) = None"
proof -
  let ?r = "\<lparr>startConcurrency = 1, endConcurrency = 5, rampUpTime = 1000, step = Some (- 1)\<rparr>"
  let ?cfg = "base_config\<lparr>totalRequests := 10, pattern := Some RampUp, rampUp := Some ?r\<rparr>"
  have sv: "spec_valid ?cfg"
    by (simp add: spec_valid_def spec_rampUp_valid_def base_config_fields)
  have c: "new_StressTester ?cfg = Inr ?cfg"
    by (simp add: new_StressTester_def validateConfig_def base_config_fields)
  have v: "validateRampUpConfig ?r = Inr ()" by (simp add: validateRampUpConfig_def)
  have r: "rampUp ?cfg = Some ?r" by simp
  have d: "doomed 10 5 (- 1) 0 1" by (simp add: doomed_def)
  have "rampUpLoop e 10 5 (- 1) pause 1 0 st = None" for pause st
    by (subst rampUpLoop.simps) (simp add: Let_def dispatch_extend rampUpLoop_doomed[OF d])
  then have "executeRampUpPattern e ?cfg initializeTest = None"
    unfolding executeRampUpPattern_accepted[OF r v] by (simp add: step_of_def)
  then have "run e ?cfg = None" by (simp add: run_def executePattern_def)
  then show ?thesis using sv c v by (intro conjI)
qed

lemma validateRampUpConfig_cases:
  "(\<exists>err. validateRampUpConfig r = Inl err) = (\<not> spec_rampUp_valid r)"
  by (auto simp: validateRampUpConfig_def spec_rampUp_valid_def)

lemma executePattern_throws:
  "(\<exists>thrown. executePattern e config st = Some (Inl thrown)) =
     (pattern config = Some RampUp \<and>
      (case rampUp config of None \<Rightarrow> True | Some r \<Rightarrow> \<not> spec_rampUp_valid r))"
proof (cases "pattern_of config")
  case RampUp
  then have p: "pattern config = Some RampUp"
    by (cases "pattern config") (simp_all add: pattern_of_def)
  show ?thesis
  proof (cases "rampUp config")
    case None
    then show ?thesis using p by (simp add: executePattern_def executeRampUpPattern_def)
  next
    case (Some r)
    show ?thesis
    proof (cases "validateRampUpConfig r")
      case (Inl err)
      then have "\<not> spec_rampUp_valid r" using validateRampUpConfig_cases[of r] by blast
      then show ?thesis using p Some Inl
        by (simp add: executePattern_def executeRampUpPattern_def Let_def)
    next
      case (Inr u)
      then have "spec_rampUp_valid r" using validateRampUpConfig_iff[of r] by simp
      then show ?thesis using p Some Inr
        by (auto simp add: executePattern_def executeRampUpPattern_def Let_def)
    qed
  qed
qed (auto simp add: executePattern_def pattern_of_def split: option.splits)

lemma executePattern_thrown_state:
  assumes "executePattern e config st = Some (Inl (err, st'))"
  shows "st' = st"
  using assms
  by (auto simp add: executePattern_def executeRampUpPattern_def Let_def
      split: AttackPattern.splits option.splits sum.splits)

text \<open>
  C4 (as amended). The constructor raises whenever the url is missing, the concurrency is
  not above 0, the total number of requests is not above 0 (the duration is not
  consulted) or the timeout is below 0; it accepts the configuration whenever the url is
  present, the concurrency and the total number of requests are above 0 and the timeout
  is absent or above 0. \<open>run\<close> raises exactly when the pattern is ramp-up and the
  ramp-up block is missing or does not have start concurrency above 0, end concurrency
  above start and ramp-up time above 0. Whenever \<open>run\<close> raises, no request has been
  dispatched and no result is accumulated.
\<close>

theorem config_errors:
  "((url config = [] \<or> concurrency config \<le> 0 \<or> totalRequests config \<le> 0 \<or>
       (\<exists>t. timeout config = Some t \<and> t < 0))
      \<longrightarrow> (\<exists>err. new_StressTester config = Inl err))
   \<and> ((url config \<noteq> [] \<and> 0 < concurrency config \<and> 0 < totalRequests config \<and>
        (timeout config = None \<or> (\<exists>t. timeout config = Some t \<and> 0 < t)))
      \<longrightarrow> new_StressTester config = Inr config)
   \<and> ((\<exists>thrown. run e config = Some (Inl thrown)) \<longleftrightarrow>
        (pattern config = Some RampUp \<and>
         (case rampUp config of None \<Rightarrow> True | Some r \<Rightarrow> \<not> spec_rampUp_valid r)))
   \<and> (\<forall>err st. run e config = Some (Inl (err, st)) \<longrightarrow> results st = [] \<and> trace st = [])"
proof (intro conjI)
  show "(url config = [] \<or> concurrency config \<le> 0 \<or> totalRequests config \<le> 0 \<or>
           (\<exists>t. timeout config = Some t \<and> t < 0))
        \<longrightarrow> (\<exists>err. new_StressTester config = Inl err)"
    by (cases "timeout config") (auto simp add: new_StressTester_def validateConfig_def)
next
  show "(url config \<noteq> [] \<and> 0 < concurrency config \<and> 0 < totalRequests config \<and>
          (timeout config = None \<or> (\<exists>t. timeout config = Some t \<and> 0 < t)))
        \<longrightarrow> new_StressTester config = Inr config"
    by (cases "timeout config") (auto simp add: new_StressTester_def validateConfig_def)
next
  have "(\<exists>thrown. run e config = Some (Inl thrown))
        = (\<exists>thrown. executePattern e config initializeTest = Some (Inl thrown))"
    by (auto simp add: run_def split: option.splits sum.splits)
  then show "(\<exists>thrown. run e config = Some (Inl thrown)) \<longleftrightarrow>
            (pattern config = Some RampUp \<and>
             (case rampUp config of None \<Rightarrow> True | Some r \<Rightarrow> \<not> spec_rampUp_valid r))"
    using executePattern_throws[of e config initializeTest] by simp
next
  show "\<forall>err st. run e config = Some (Inl (err, st)) \<longrightarrow> results st = [] \<and> trace st = []"
  proof (intro allI impI)
    fix err st
    assume "run e config = Some (Inl (err, st))"
    then have "executePattern e config initializeTest = Some (Inl (err, st))"
      by (auto simp add: run_def split: option.splits sum.splits)
    then have "st = initializeTest" by (rule executePattern_thrown_state)
    then show "results st = [] \<and> trace st = []" by (simp add: initializeTest_fields)
  qed
qed

theorem config_errors_witness:
  "(\<exists>err. new_StressTester (base_config\<lparr>concurrency := 0\<rparr>) = Inl err) \<and>
   new_StressTester (base_config\<lparr>timeout := None\<rparr>) = Inr (base_config\<lparr>timeout := None\<rparr>) \<and>
   (\<exists>err st. run ok_env (base_config\<lparr>pattern := Some RampUp,
        rampUp := Some (ramp_10_100\<lparr>endConcurrency := 10\<rparr>)\<rparr>) = Some (Inl (err, st)) \<and>
      results st = [] \<and> trace st = [])"
proof -
  let ?bad = "base_config\<lparr>pattern := Some RampUp,
        rampUp := Some (ramp_10_100\<lparr>endConcurrency := 10\<rparr>)\<rparr>"
  have a: "\<exists>err. new_StressTester (base_config\<lparr>concurrency := 0\<rparr>) = Inl err"
    using config_errors[of "base_config\<lparr>concurrency := 0\<rparr>" ok_env] by simp
  have b: "new_StressTester (base_config\<lparr>timeout := None\<rparr>) = Inr (base_config\<lparr>timeout := None\<rparr>)"
    using config_errors[of "base_config\<lparr>timeout := None\<rparr>" ok_env]
    by (simp add: base_config_fields)
  have "\<exists>thrown. run ok_env ?bad = Some (Inl thrown)"
    using config_errors[of ?bad ok_env]
    by (simp add: spec_rampUp_valid_def ramp_10_100_fields)
  then obtain err st where thrown: "run ok_env ?bad = Some (Inl (err, st))" by force
  have "\<forall>err st. run ok_env ?bad = Some (Inl (err, st)) \<longrightarrow> results st = [] \<and> trace st = []"
    using config_errors[of ?bad ok_env] by blast
  then have "results st = [] \<and> trace st = []" using thrown by blast
  then have c: "\<exists>err st. run ok_env ?bad = Some (Inl (err, st)) \<and> results st = [] \<and> trace st = []"
    using thrown by blast
  show ?thesis using a b c by (intro conjI)
qed

text \<open>
  The claim as written counts a configuration with a positive duration and no requests
  as valid; the constructor raises on it.
\<close>

theorem duration_not_consulted_counterexample:
  "spec_valid (base_config\<lparr>totalRequests := 0, duration := Some 1000\<rparr>) \<and>
   new_StressTester (base_config\<lparr>totalRequests := 0, duration := Some 1000\<rparr>)
     = Inl (Error ''Total requests must be greater than 0'')"
  by (simp add: spec_valid_def new_StressTester_def validateConfig_def base_config_fields)

text \<open>
  A timeout of 0 is left out of the statement above. It passes the constructor (whose
  test is \<open>config.timeout && ...\<close>), while the message of that test and
  \<open>Utils.validateConfig\<close> require a timeout above 0.
\<close>

lemma timeout_zero_accepted:
  "new_StressTester (base_config\<lparr>timeout := Some 0\<rparr>) = Inr (base_config\<lparr>timeout := Some 0\<rparr>)"
  by (simp add: new_StressTester_def validateConfig_def base_config_fields)

section \<open>The semaphore: bound and hand-over\<close>

lemma arrivals_append: "arrivals (evs @ evs') = arrivals evs @ arrivals evs'"
  by (induction evs rule: arrivals.induct) simp_all

lemma reaches_sem_inv: "reaches C evs p \<Longrightarrow> sem_inv C p"
  by (induction rule: reaches.induct) (simp_all add: sem_inv_new sem_inv_start sem_inv_finish)

lemma reaches_distinct: "reaches C evs p \<Longrightarrow> distinct (arrivals evs)"
  by (induction rule: reaches.induct) (simp_all add: arrivals_append)

lemma reaches_queue_order:
  "reaches C evs p \<Longrightarrow> \<exists>ys. arrivals evs = ys @ waitQueue (sem p)"
proof (induction rule: reaches.induct)
  case reaches_init
  then show ?case by (simp add: new_phase_def new_semaphore_def)
next
  case (reaches_acquire evs p i)
  then obtain ys where ys: "arrivals evs = ys @ waitQueue (sem p)" by blast
  have inv: "sem_inv C p" using reaches_acquire.hyps(1) by (rule reaches_sem_inv)
  show ?case
  proof (cases "0 < permits (sem p)")
    case True
    then have "waitQueue (sem p) = []" using inv by (auto simp: sem_inv_def)
    then show ?thesis using True ys
      by (simp add: arrivals_append start_task_def acquire_def)
  next
    case False
    then show ?thesis using ys by (simp add: arrivals_append start_task_def acquire_def)
  qed
next
  case (reaches_release evs p i w)
  then obtain ys where ys: "arrivals evs = ys @ waitQueue (sem p)" by blast
  show ?case
  proof (cases "waitQueue (sem p)")
    case Nil
    then show ?thesis by (simp add: arrivals_append finish_task_def release_def Let_def)
  next
    case (Cons v vs)
    then have "arrivals evs = (ys @ [v]) @ vs" using ys by simp
    then show ?thesis using Cons
      by (simp add: arrivals_append finish_task_def release_def Let_def del: append_assoc)
  qed
qed

lemma release_hands_over:
  assumes "waitQueue (sem p) = w # ws"
  shows "running (finish_task wd i p) = remove1 i (running p) @ [w]"
    and "waitQueue (sem (finish_task wd i p)) = ws"
    and "permits (sem (finish_task wd i p)) = permits (sem p)"
  using assms by (simp_all add: finish_task_def release_def Let_def)

lemma acquire_queues_behind:
  assumes "sem_inv C p" "waitQueue (sem p) \<noteq> []"
  shows "running (start_task j p) = running p"
    and "waitQueue (sem (start_task j p)) = waitQueue (sem p) @ [j]"
  using assms by (auto simp add: sem_inv_def start_task_def acquire_def)

lemma launch_reaches:
  "reaches C evs p \<Longrightarrow> distinct ids \<Longrightarrow> set ids \<inter> set (arrivals evs) = {} \<Longrightarrow>
   reaches C (evs @ map Acquire ids) (foldl (\<lambda>p i. start_task i p) p ids)"
proof (induction ids arbitrary: evs p)
  case Nil
  then show ?case by simp
next
  case (Cons i ids)
  have "reaches C (evs @ [Acquire i]) (start_task i p)"
    using Cons.prems by (intro reaches_acquire) simp_all
  moreover have "set ids \<inter> set (arrivals (evs @ [Acquire i])) = {}"
    using Cons.prems by (auto simp add: arrivals_append)
  ultimately have "reaches C ((evs @ [Acquire i]) @ map Acquire ids)
       (foldl (\<lambda>p i. start_task i p) (start_task i p) ids)"
    using Cons.prems by (intro Cons.IH) simp_all
  then show ?case by simp
qed

lemma settle_reaches:
  assumes "reaches C evs p" "running p \<noteq> []"
  shows "reaches C (evs @ [Release (running p ! (pick e (running p) mod length (running p)))])
           (settle e p)"
  unfolding settle_def using assms by (intro reaches_release) simp_all

text \<open>
  C9. In every state that the acquire/release step relation of a semaphore with \<open>C\<close>
  configured permits reaches, at most \<open>max 1 C\<close> callers hold a permit, hence at most
  \<open>C\<close> for \<open>C \<ge> 1\<close>. The queue of suspended callers is the last part of the arrival
  sequence, in arrival order and without repetition, so its head is the caller that has
  waited longest. A release with a non-empty queue hands the permit to that head: it
  joins the running callers, the queue loses it, and the permit count stays 0, so that
  a caller acquiring later queues behind the waiting ones instead of taking the permit.
  The states of a call of \<open>makeConcurrentRequests\<close> (a burst is one such call) are
  reachable: the state after the initial acquires is, and each completion step leads from
  a reachable state to a reachable one.
\<close>

theorem semaphore_bound_fifo:
  assumes "reaches C evs p"
  shows "int (length (running p)) \<le> max 1 C
       \<and> (1 \<le> C \<longrightarrow> int (length (running p)) \<le> C)
       \<and> (\<exists>ys. arrivals evs = ys @ waitQueue (sem p)) \<and> distinct (arrivals evs)
       \<and> (\<forall>w ws i wd. waitQueue (sem p) = w # ws \<longrightarrow>
             running (finish_task wd i p) = remove1 i (running p) @ [w] \<and>
             waitQueue (sem (finish_task wd i p)) = ws \<and>
             permits (sem (finish_task wd i p)) = 0)
       \<and> (\<forall>j. waitQueue (sem p) \<noteq> [] \<longrightarrow>
             running (start_task j p) = running p \<and>
             waitQueue (sem (start_task j p)) = waitQueue (sem p) @ [j])
       \<and> (running p \<noteq> [] \<longrightarrow>
             reaches C (evs @ [Release (running p ! (pick e (running p) mod length (running p)))])
               (settle e p))
       \<and> reaches k (map Acquire [s..s + c - 1])
            (foldl (\<lambda>p i. start_task i p) (new_phase k) (map (\<lambda>i. s + int i) [0..<nat c]))"
proof -
  have inv: "sem_inv C p" using assms by (rule reaches_sem_inv)
  have bound: "int (length (running p)) \<le> max 1 C" using inv by (auto simp: sem_inv_def)
  have zero: "permits (sem p) = 0" if "waitQueue (sem p) \<noteq> []"
    using inv that by (auto simp: sem_inv_def)
  have hand: "\<forall>w ws i wd. waitQueue (sem p) = w # ws \<longrightarrow>
             running (finish_task wd i p) = remove1 i (running p) @ [w] \<and>
             waitQueue (sem (finish_task wd i p)) = ws \<and>
             permits (sem (finish_task wd i p)) = 0"
    using release_hands_over[of p] zero by simp
  have behind: "\<forall>j. waitQueue (sem p) \<noteq> [] \<longrightarrow>
             running (start_task j p) = running p \<and>
             waitQueue (sem (start_task j p)) = waitQueue (sem p) @ [j]"
    using acquire_queues_behind[OF inv] by simp
  have launch: "reaches k (map Acquire [s..s + c - 1])
            (foldl (\<lambda>p i. start_task i p) (new_phase k) (map (\<lambda>i. s + int i) [0..<nat c]))"
  proof -
    have ids: "map (\<lambda>i. s + int i) [0..<nat c] = [s..s + c - 1]"
      using callers_upto[of s "nat c"] by (cases "c \<le> 0") simp_all
    show ?thesis
      unfolding ids
      using launch_reaches[OF reaches_init, of "[s..s + c - 1]" k] by simp
  qed
  have bound1: "1 \<le> C \<longrightarrow> int (length (running p)) \<le> C" using bound by auto
  have step: "running p \<noteq> [] \<longrightarrow>
             reaches C (evs @ [Release (running p ! (pick e (running p) mod length (running p)))])
               (settle e p)"
    using settle_reaches[OF assms, of e] by blast
  show ?thesis
    using bound bound1 reaches_queue_order[OF assms] reaches_distinct[OF assms] hand behind
      step launch
    by (intro conjI)
qed

theorem semaphore_bound_fifo_witness:
  "length (running (start_task 2 (start_task 1 (start_task 0 (new_phase 2))))) \<le> 2 \<and>
   waitQueue (sem (start_task 2 (start_task 1 (start_task 0 (new_phase 2))))) = [2] \<and>
   running (finish_task (world ok_env) 0 (start_task 2 (start_task 1 (start_task 0 (new_phase 2)))))
     = [1, 2]"
proof -
  let ?p = "start_task 2 (start_task 1 (start_task 0 (new_phase 2)))"
  have r0: "reaches 2 [] (new_phase 2)" by (rule reaches_init)
  have r1: "reaches 2 ([] @ [Acquire 0]) (start_task 0 (new_phase 2))"
    using r0 by (rule reaches_acquire) simp
  have r2: "reaches 2 (([] @ [Acquire 0]) @ [Acquire 1]) (start_task 1 (start_task 0 (new_phase 2)))"
    using r1 by (rule reaches_acquire) simp
  have r3: "reaches 2 ((([] @ [Acquire 0]) @ [Acquire 1]) @ [Acquire 2]) ?p"
    using r2 by (rule reaches_acquire) simp
  have q: "waitQueue (sem ?p) = [2]" "running ?p = [0, 1]"
    by (simp_all add: start_task_def acquire_def new_phase_def new_semaphore_def)
  note T = semaphore_bound_fifo[OF r3, of ok_env 2 0 1]
  have a: "int (length (running ?p)) \<le> 2" using T by simp
  have b: "running (finish_task (world ok_env) 0 ?p) = remove1 0 (running ?p) @ [2]"
    using T q(1) by blast
  show ?thesis using a b q by simp
qed

end
